theory Spec2Isabelle
  imports Main "HOL-Library.Word" "HOL-Library.Monad_Syntax"
begin

unbundle bit_operations_syntax


type_synonym EntityID = "64 word"

definition GetIndex :: "EntityID \<Rightarrow> 32 word" where
  "GetIndex entity = ucast (entity AND 0xFFFFFFFF)"

definition GetGeneration :: "EntityID \<Rightarrow> 32 word" where
  "GetGeneration entity = ucast (drop_bit 32 entity)"

definition MakeEntityID :: "32 word \<Rightarrow> 32 word \<Rightarrow> EntityID" where
  "MakeEntityID generation index = push_bit 32 (ucast generation) OR ucast index"



datatype ComponentMask = Words "64 word" "64 word" "64 word" "64 word"

fun GetWord :: "ComponentMask \<Rightarrow> nat \<Rightarrow> 64 word" where
  "GetWord (Words a b c d) index =
     (if index = 0 then a else if index = 1 then b else if index = 2 then c else d)"

fun SetWord :: "ComponentMask \<Rightarrow> nat \<Rightarrow> 64 word \<Rightarrow> ComponentMask" where
  "SetWord (Words a b c d) index w =
     (if index = 0 then Words w b c d else if index = 1 then Words a w c d
      else if index = 2 then Words a b w d else Words a b c w)"

definition MakeMask :: "64 word \<Rightarrow> ComponentMask" where
  "MakeMask val = Words val 0 0 0"

definition Set :: "nat \<Rightarrow> ComponentMask \<Rightarrow> ComponentMask" where
  "Set b m = (if b < 256
     then SetWord m (b div 64) (GetWord m (b div 64) OR push_bit (b mod 64) 1)
     else m)"

definition Reset :: "nat \<Rightarrow> ComponentMask \<Rightarrow> ComponentMask" where
  "Reset b m = (if b < 256
     then SetWord m (b div 64) (GetWord m (b div 64) AND NOT (push_bit (b mod 64) 1))
     else m)"

definition ResetAll :: "ComponentMask \<Rightarrow> ComponentMask" where
  "ResetAll m = Words 0 0 0 0"

definition Test :: "ComponentMask \<Rightarrow> nat \<Rightarrow> bool" where
  "Test m b = (if b \<ge> 256 then False
     else (GetWord m (b div 64) AND push_bit (b mod 64) 1) \<noteq> 0)"

definition MaskContains :: "ComponentMask \<Rightarrow> ComponentMask \<Rightarrow> bool" where
  "MaskContains m other =
     list_all (\<lambda>i. (GetWord m i AND GetWord other i) = GetWord other i) [0, 1, 2, 3]"

lemma drop_bit_1_less: "w \<noteq> 0 \<Longrightarrow> unat (drop_bit (Suc 0) w) < unat (w :: 64 word)"
proof -
  assume "w \<noteq> 0"
  then have "0 < unat w" by (simp add: unat_gt_0)
  moreover have "unat (drop_bit (Suc 0) w) = unat w div 2"
    unfolding unat_drop_bit_eq by (simp add: drop_bit_eq_div)
  ultimately show ?thesis by simp
qed

function ctzll :: "64 word \<Rightarrow> nat" where
  "ctzll w = (if w = 0 then 64 else if bit w 0 then 0 else Suc (ctzll (drop_bit 1 w)))"
  by pat_completeness auto
termination
  by (relation "measure unat") (auto simp: drop_bit_1_less)

declare ctzll.simps [simp del]

lemma drop_bit_1_zero: "drop_bit 1 w = 0 \<Longrightarrow> \<not> bit w 0 \<Longrightarrow> w = (0 :: 64 word)"
proof (rule bit_word_eqI)
  fix n assume a: "drop_bit 1 w = 0" "\<not> bit w 0" "n < LENGTH(64)"
  show "bit w n = bit (0 :: 64 word) n"
  proof (cases n)
    case 0
    then show ?thesis using a by simp
  next
    case (Suc k)
    have "bit (drop_bit 1 w) k = bit w (Suc k)" by (simp add: bit_drop_bit_eq)
    then show ?thesis using a Suc by simp
  qed
qed

lemma ctzll_least:
  "w \<noteq> 0 \<Longrightarrow> bit w (ctzll w) \<and> (\<forall>k < ctzll w. \<not> bit w k)"
proof (induction w rule: ctzll.induct)
  case (1 w)
  show ?case
  proof (cases "bit w 0")
    case True
    then show ?thesis using 1 by (simp add: ctzll.simps[of w])
  next
    case False
    have nz: "drop_bit 1 w \<noteq> 0" using drop_bit_1_zero[of w] False "1.prems" by blast
    have ih: "bit (drop_bit 1 w) (ctzll (drop_bit 1 w)) \<and> (\<forall>k < ctzll (drop_bit 1 w). \<not> bit (drop_bit 1 w) k)"
      using "1.IH"[OF "1.prems" False nz] .
    have c: "ctzll w = Suc (ctzll (drop_bit 1 w))" using False "1.prems" by (simp add: ctzll.simps[of w])
    have b: "\<And>k. bit (drop_bit 1 w) k = bit w (Suc k)" by (simp add: bit_drop_bit_eq)
    show ?thesis unfolding c using ih False b
      by (auto simp: less_Suc_eq_0_disj)
  qed
qed

lemma clear_bit_less:
  assumes "bit w b"
  shows "unat (w AND NOT (push_bit b 1)) < unat (w :: 64 word)"
proof -
  have le: "w AND NOT (push_bit b 1) \<le> w" by (rule word_and_le2)
  have "bit (w AND NOT (push_bit b 1)) b = False"
    by (auto simp add: bit_simps)
  then have "w AND NOT (push_bit b 1) \<noteq> w" using assms by metis
  then have "w AND NOT (push_bit b 1) < w" using le by simp
  then show ?thesis by (simp add: word_less_nat_alt)
qed

function word_bits :: "64 word \<Rightarrow> nat list" where
  "word_bits w = (if w = 0 then []
     else (let b = ctzll w in b # word_bits (w AND NOT (push_bit b 1))))"
  by pat_completeness auto
termination
  by (relation "measure unat") (auto simp: clear_bit_less[simplified] ctzll_least)

declare word_bits.simps [simp del]

definition ForEachSetBit :: "ComponentMask \<Rightarrow> nat list" where
  "ForEachSetBit m =
     concat (map (\<lambda>i. map (\<lambda>b. i * 64 + b) (word_bits (GetWord m i))) [0, 1, 2, 3])"


definition k_NullIndex :: nat where
  "k_NullIndex = 2 ^ 64 - 1"

definition k_PageSize :: nat where
  "k_PageSize = 4096"

definition GetPageID :: "32 word \<Rightarrow> nat" where
  "GetPageID index = unat index div k_PageSize"

definition GetPageOffset :: "32 word \<Rightarrow> nat" where
  "GetPageOffset index = unat index mod k_PageSize"

record 'c SparseSet =
  DenseData :: "'c list"
  DenseToEntity :: "EntityID list"
  SparsePages :: "nat list option list"

definition empty_SparseSet :: "'c SparseSet" where
  "empty_SparseSet = \<lparr>DenseData = [], DenseToEntity = [], SparsePages = []\<rparr>"

definition Size :: "'c SparseSet \<Rightarrow> nat" where
  "Size s = length (DenseData s)"

definition GetEntities :: "'c SparseSet \<Rightarrow> EntityID list" where
  "GetEntities s = DenseToEntity s"

definition read_slot :: "nat list option list \<Rightarrow> 32 word \<Rightarrow> nat option" where
  "read_slot pages index =
    (if GetPageID index < length pages then
       (case pages ! GetPageID index of
          None \<Rightarrow> None
        | Some page \<Rightarrow>
            if GetPageOffset index < length page then Some (page ! GetPageOffset index) else None)
     else None)"

definition write_slot :: "nat list option list \<Rightarrow> 32 word \<Rightarrow> nat \<Rightarrow> nat list option list option" where
  "write_slot pages index v =
    (if GetPageID index < length pages then
       (case pages ! GetPageID index of
          None \<Rightarrow> None
        | Some page \<Rightarrow>
            if GetPageOffset index < length page
            then Some (pages[GetPageID index := Some (page[GetPageOffset index := v])])
            else None)
     else None)"

definition EnsurePage :: "nat list option list \<Rightarrow> nat \<Rightarrow> nat list option list" where
  "EnsurePage pages pageId =
    (let pages1 = (if pageId \<ge> length pages
                   then pages @ replicate (pageId + 1 - length pages) None
                   else pages)
     in if pages1 ! pageId = None
        then pages1[pageId := Some (replicate k_PageSize k_NullIndex)]
        else pages1)"

definition Insert :: "EntityID \<Rightarrow> 'c \<Rightarrow> 'c SparseSet \<Rightarrow> 'c SparseSet option" where
  "Insert entity component s =
    (let index = GetIndex entity;
         pages2 = EnsurePage (SparsePages s) (GetPageID index)
     in do {
       denseIndex \<leftarrow> read_slot pages2 index;
       if denseIndex \<noteq> k_NullIndex then
         (if denseIndex < length (DenseData s) \<and> denseIndex < length (DenseToEntity s)
          then Some (s\<lparr>DenseData := (DenseData s)[denseIndex := component],
                       DenseToEntity := (DenseToEntity s)[denseIndex := entity],
                       SparsePages := pages2\<rparr>)
          else None)
       else do {
         pages3 \<leftarrow> write_slot pages2 index (length (DenseData s));
         Some (s\<lparr>DenseData := DenseData s @ [component],
                  DenseToEntity := DenseToEntity s @ [entity],
                  SparsePages := pages3\<rparr>)
       }
     })"

definition Remove :: "EntityID \<Rightarrow> 'c SparseSet \<Rightarrow> 'c SparseSet option" where
  "Remove entity s =
    (let index = GetIndex entity;
         pageId = GetPageID index
     in if pageId \<ge> length (SparsePages s) \<or> SparsePages s ! pageId = None then Some s
        else do {
          denseIndexToRemove \<leftarrow> read_slot (SparsePages s) index;
          if denseIndexToRemove = k_NullIndex then Some s
          else if \<not> denseIndexToRemove < length (DenseToEntity s) then None
          else if DenseToEntity s ! denseIndexToRemove \<noteq> entity then Some s
          else if DenseData s = [] then None
          else do {
            let lastDenseIndex = length (DenseData s) - 1;
            s1 \<leftarrow> (if denseIndexToRemove \<noteq> lastDenseIndex then
                    (if lastDenseIndex < length (DenseToEntity s)
                        \<and> denseIndexToRemove < length (DenseData s)
                     then do {
                       let lastEntity = DenseToEntity s ! lastDenseIndex;
                       pages1 \<leftarrow> write_slot (SparsePages s) (GetIndex lastEntity) denseIndexToRemove;
                       Some (s\<lparr>DenseData := (DenseData s)[denseIndexToRemove := DenseData s ! lastDenseIndex],
                                DenseToEntity := (DenseToEntity s)[denseIndexToRemove := lastEntity],
                                SparsePages := pages1\<rparr>)
                     }
                     else None)
                  else Some s);
            pages2 \<leftarrow> write_slot (SparsePages s1) index k_NullIndex;
            Some (s1\<lparr>DenseData := butlast (DenseData s1),
                      DenseToEntity := butlast (DenseToEntity s1),
                      SparsePages := pages2\<rparr>)
          }
        })"

definition Contains :: "'c SparseSet \<Rightarrow> EntityID \<Rightarrow> bool option" where
  "Contains s entity =
    (let index = GetIndex entity;
         pageId = GetPageID index
     in if pageId \<ge> length (SparsePages s) \<or> SparsePages s ! pageId = None then Some False
        else do {
          denseIndex \<leftarrow> read_slot (SparsePages s) index;
          if denseIndex = k_NullIndex then Some False
          else if denseIndex < length (DenseToEntity s)
               then Some (DenseToEntity s ! denseIndex = entity)
               else None
        })"

definition GetRef :: "'c SparseSet \<Rightarrow> EntityID \<Rightarrow> nat option" where
  "GetRef s entity =
    (if Contains s entity = Some True then do {
       denseIndex \<leftarrow> read_slot (SparsePages s) (GetIndex entity);
       if denseIndex < length (DenseData s) then Some denseIndex else None
     }
     else None)"

definition Get :: "'c SparseSet \<Rightarrow> EntityID \<Rightarrow> 'c option" where
  "Get s entity = map_option (\<lambda>denseIndex. DenseData s ! denseIndex) (GetRef s entity)"


datatype ComponentEvent = Added | Removed | Modified

type_synonym callback = nat

datatype 'c Call = Call ComponentEvent nat callback EntityID 'c

record SignalStorage =
  onAdded :: "callback list"
  onRemoved :: "callback list"
  onModified :: "callback list"

record 'c World =
  StoresByID :: "nat option list"
  ComponentStores :: "nat \<Rightarrow> 'c SparseSet"
  ComponentSignals :: "nat \<Rightarrow> SignalStorage option"
  OnRemovedTriggers :: "bool list"
  EntitySignatures :: "ComponentMask list"
  EntityGenerations :: "32 word list"
  FreeEntities :: "EntityID list"
  Calls :: "'c Call list"

definition empty_World :: "'c World" where
  "empty_World = \<lparr>StoresByID = [], ComponentStores = (\<lambda>_. empty_SparseSet),
     ComponentSignals = (\<lambda>_. None), OnRemovedTriggers = [], EntitySignatures = [],
     EntityGenerations = [], FreeEntities = [], Calls = []\<rparr>"

definition SIZE_MAX :: nat where
  "SIZE_MAX = 2 ^ 64 - 1"

definition resize :: "'a list \<Rightarrow> nat \<Rightarrow> 'a \<Rightarrow> 'a list" where
  "resize xs n d = take n xs @ replicate (n - length xs) d"

definition GetStore :: "'c World \<Rightarrow> nat \<Rightarrow> 'c SparseSet" where
  "GetStore w c = ComponentStores w c"

definition IsAlive :: "'c World \<Rightarrow> EntityID \<Rightarrow> bool option" where
  "IsAlive w eid =
    (let index = GetIndex eid; generation = GetGeneration eid
     in if unat index < length (EntitySignatures w) then
          (if unat index < length (EntityGenerations w)
           then Some (EntityGenerations w ! unat index = generation)
           else None)
        else Some False)"

definition HasComponent :: "'c World \<Rightarrow> EntityID \<Rightarrow> nat \<Rightarrow> bool" where
  "HasComponent w eid componentID =
    (let index = GetIndex eid
     in if unat index \<ge> length (EntitySignatures w) then False
        else Test (EntitySignatures w ! unat index) componentID)"

definition GetComponent :: "'c World \<Rightarrow> EntityID \<Rightarrow> nat \<Rightarrow> 'c option" where
  "GetComponent w eid c = Get (GetStore w c) eid"

definition EnsureSignalStorage :: "nat \<Rightarrow> 'c World \<Rightarrow> 'c World" where
  "EnsureSignalStorage c w =
    (let triggers1 = (if c \<ge> length (OnRemovedTriggers w)
                      then resize (OnRemovedTriggers w) (c + 1) False
                      else OnRemovedTriggers w)
     in w\<lparr>OnRemovedTriggers := (if \<not> triggers1 ! c then triggers1[c := True] else triggers1)\<rparr>)"

definition GetSignals :: "nat \<Rightarrow> 'c World \<Rightarrow> SignalStorage \<times> 'c World" where
  "GetSignals c w =
    (case ComponentSignals w c of
       None \<Rightarrow>
         (let newSignals = \<lparr>onAdded = [], onRemoved = [], onModified = []\<rparr>
          in (newSignals, w\<lparr>ComponentSignals := (ComponentSignals w)(c \<mapsto> newSignals)\<rparr>))
     | Some signals \<Rightarrow> (signals, w))"

definition TriggerEvent :: "nat \<Rightarrow> EntityID \<Rightarrow> ComponentEvent \<Rightarrow> 'c World \<Rightarrow> 'c World option" where
  "TriggerEvent c eid event w =
    (case ComponentSignals w c of
       None \<Rightarrow> Some w
     | Some signals \<Rightarrow> do {
         component \<leftarrow> GetComponent w eid c;
         let cbs = (case event of
                      Added \<Rightarrow> onAdded signals
                    | Removed \<Rightarrow> onRemoved signals
                    | Modified \<Rightarrow> onModified signals);
         Some (w\<lparr>Calls := Calls w @ map (\<lambda>cb. Call event c cb eid component) cbs\<rparr>)
       })"

definition OnEvent :: "nat \<Rightarrow> ComponentEvent \<Rightarrow> callback \<Rightarrow> 'c World \<Rightarrow> 'c World" where
  "OnEvent c event cb w =
    (let w1 = EnsureSignalStorage c w;
         (signals, w2) = GetSignals c w1;
         signals' = (case event of
                       Added \<Rightarrow> signals\<lparr>onAdded := onAdded signals @ [cb]\<rparr>
                     | Removed \<Rightarrow> signals\<lparr>onRemoved := onRemoved signals @ [cb]\<rparr>
                     | Modified \<Rightarrow> signals\<lparr>onModified := onModified signals @ [cb]\<rparr>)
     in w2\<lparr>ComponentSignals := (ComponentSignals w2)(c \<mapsto> signals')\<rparr>)"

definition CreateEntity :: "'c World \<Rightarrow> (EntityID \<times> 'c World) option" where
  "CreateEntity w =
    (if FreeEntities w \<noteq> [] then
       (let eid = last (FreeEntities w);
            w1 = w\<lparr>FreeEntities := butlast (FreeEntities w)\<rparr>;
            index = GetIndex eid
        in if unat index < length (EntityGenerations w1)
           then Some (MakeEntityID (EntityGenerations w1 ! unat index) index, w1)
           else None)
     else
       (let index = (of_nat (length (EntitySignatures w)) :: 32 word)
        in Some (ucast index,
                 w\<lparr>EntitySignatures := EntitySignatures w @ [MakeMask 0],
                   EntityGenerations := EntityGenerations w @ [0]\<rparr>)))"

fun drain_free :: "nat \<Rightarrow> 'c World \<Rightarrow> EntityID list \<Rightarrow> (nat \<times> 'c World \<times> EntityID list) option" where
  "drain_free 0 w entities = Some (0, w, entities)"
| "drain_free (Suc n) w entities =
    (if FreeEntities w = [] then Some (Suc n, w, entities)
     else case CreateEntity w of
            None \<Rightarrow> None
          | Some (e, w') \<Rightarrow> drain_free n w' (entities @ [e]))"

definition CreateEntitiesBulk :: "nat \<Rightarrow> 'c World \<Rightarrow> (EntityID list \<times> 'c World) option" where
  "CreateEntitiesBulk count w = do {
     (count1, w1, entities) \<leftarrow> drain_free count w [];
     if count1 > 0 then
       (let startIndex = (of_nat (length (EntitySignatures w1)) :: 32 word);
            newSize = (unat startIndex + count1) mod 2 ^ 64
        in if count1 < 2 ^ 32
           then Some (entities @ map (\<lambda>i. ucast (startIndex + of_nat i)) [0..<count1],
                      w1\<lparr>EntitySignatures := resize (EntitySignatures w1) newSize (MakeMask 0),
                         EntityGenerations := resize (EntityGenerations w1) newSize 0\<rparr>)
           else None)
     else Some (entities, w1)
   }"

definition CreateEntityWithID :: "EntityID \<Rightarrow> 'c World \<Rightarrow> (EntityID \<times> 'c World) option" where
  "CreateEntityWithID eid w =
    (let index = GetIndex eid;
         generation = GetGeneration eid;
         w1 = (if unat index \<ge> length (EntitySignatures w)
               then w\<lparr>EntitySignatures := resize (EntitySignatures w) (unat (index + 1)) (MakeMask 0),
                      EntityGenerations := resize (EntityGenerations w) (unat (index + 1)) 0\<rparr>
               else w)
     in do {
       alive \<leftarrow> IsAlive w1 eid;
       if alive then Some (eid, w1)
       else if unat index < length (EntityGenerations w1) \<and> unat index < length (EntitySignatures w1)
       then Some (eid,
              w1\<lparr>FreeEntities := filter (\<lambda>freed. GetIndex freed \<noteq> index) (FreeEntities w1),
                 EntityGenerations := (EntityGenerations w1)[unat index := generation],
                 EntitySignatures := (EntitySignatures w1)
                    [unat index := ResetAll (EntitySignatures w1 ! unat index)]\<rparr>)
       else None
     })"

definition destroy_bit :: "EntityID \<Rightarrow> nat \<Rightarrow> 'c World \<Rightarrow> 'c World option" where
  "destroy_bit eid i w = do {
     w1 \<leftarrow> (if i < length (OnRemovedTriggers w) \<and> OnRemovedTriggers w ! i
            then TriggerEvent i eid Removed w else Some w);
     if i < length (StoresByID w1) then
       (case StoresByID w1 ! i of
          None \<Rightarrow> Some w1
        | Some k \<Rightarrow> do {
            store' \<leftarrow> Remove eid (ComponentStores w1 k);
            Some (w1\<lparr>ComponentStores := (ComponentStores w1)(k := store')\<rparr>)
          })
     else Some w1
   }"

fun fold_option :: "('a \<Rightarrow> 's \<Rightarrow> 's option) \<Rightarrow> 'a list \<Rightarrow> 's \<Rightarrow> 's option" where
  "fold_option f [] s = Some s"
| "fold_option f (x # xs) s = (case f x s of None \<Rightarrow> None | Some s' \<Rightarrow> fold_option f xs s')"

definition DestroyEntity :: "EntityID \<Rightarrow> 'c World \<Rightarrow> 'c World option" where
  "DestroyEntity eid w =
    (let index = GetIndex eid
     in do {
       alive \<leftarrow> IsAlive w eid;
       if alive then do {
         w1 \<leftarrow> fold_option (destroy_bit eid) (ForEachSetBit (EntitySignatures w ! unat index)) w;
         let generations' = (EntityGenerations w1)[unat index := EntityGenerations w1 ! unat index + 1];
         Some (w1\<lparr>EntitySignatures := (EntitySignatures w1)
                     [unat index := ResetAll (EntitySignatures w1 ! unat index)],
                  EntityGenerations := generations',
                  FreeEntities := FreeEntities w1 @ [MakeEntityID (generations' ! unat index) index]\<rparr>)
       }
       else Some w
     })"

definition AddComponent :: "EntityID \<Rightarrow> nat \<Rightarrow> 'c \<Rightarrow> 'c World \<Rightarrow> 'c World option" where
  "AddComponent eid compId component w =
    (let index = GetIndex eid;
         w1 = (if unat index \<ge> length (EntitySignatures w)
               then w\<lparr>EntitySignatures := resize (EntitySignatures w) (unat (index + 1)) (MakeMask 0)\<rparr>
               else w)
     in do {
       store' \<leftarrow> Insert eid component (GetStore w1 compId);
       let w2 = w1\<lparr>ComponentStores := (ComponentStores w1)(compId := store')\<rparr>;
       if unat index < length (EntitySignatures w2) then do {
         let w3 = w2\<lparr>EntitySignatures := (EntitySignatures w2)
                       [unat index := Set compId (EntitySignatures w2 ! unat index)]\<rparr>;
         let stores1 = (if compId \<ge> length (StoresByID w3)
                        then resize (StoresByID w3) (compId + 1) None
                        else StoresByID w3);
         let w4 = w3\<lparr>StoresByID := stores1[compId := Some compId]\<rparr>;
         TriggerEvent compId eid Added (EnsureSignalStorage compId w4)
       }
       else None
     })"

definition RemoveComponent :: "EntityID \<Rightarrow> nat \<Rightarrow> 'c World \<Rightarrow> 'c World option" where
  "RemoveComponent eid compId w =
    (let index = GetIndex eid
     in if unat index < length (EntitySignatures w) \<and> HasComponent w eid compId then do {
          w1 \<leftarrow> TriggerEvent compId eid Removed w;
          store' \<leftarrow> Remove eid (GetStore w1 compId);
          Some (w1\<lparr>ComponentStores := (ComponentStores w1)(compId := store'),
                   EntitySignatures := (EntitySignatures w1)
                     [unat index := Reset compId (EntitySignatures w1 ! unat index)]\<rparr>)
        }
        else Some w)"

definition PatchComponent :: "EntityID \<Rightarrow> nat \<Rightarrow> ('c \<Rightarrow> 'c) \<Rightarrow> 'c World \<Rightarrow> 'c World option" where
  "PatchComponent eid compId func w =
    (if HasComponent w eid compId then do {
       ref \<leftarrow> GetRef (GetStore w compId) eid;
       let store = GetStore w compId;
       let store' = store\<lparr>DenseData := (DenseData store)[ref := func (DenseData store ! ref)]\<rparr>;
       TriggerEvent compId eid Modified (w\<lparr>ComponentStores := (ComponentStores w)(compId := store')\<rparr>)
     }
     else Some w)"

definition View_mask :: "nat list \<Rightarrow> ComponentMask" where
  "View_mask components = foldl (\<lambda>m c. Set c m) (MakeMask 0) components"

definition find_smallest :: "'c World \<Rightarrow> nat list \<Rightarrow> nat option" where
  "find_smallest w components =
     snd (foldl (\<lambda>(minSize, smallestStorePtr) c.
                   if Size (GetStore w c) < minSize
                   then (Size (GetStore w c), Some c)
                   else (minSize, smallestStorePtr))
                (SIZE_MAX, None) components)"

definition first_index :: "nat list \<Rightarrow> nat \<Rightarrow> nat" where
  "first_index components c = length (takeWhile (\<lambda>x. x \<noteq> c) components)"

definition visit :: "'c World \<Rightarrow> nat list \<Rightarrow> nat \<Rightarrow> nat \<Rightarrow> EntityID \<Rightarrow> (EntityID \<times> 'c list) list option" where
  "visit w components drivingIdx i entity =
    (let index = GetIndex entity
     in if unat index < length (EntitySignatures w) then
          (if MaskContains (EntitySignatures w ! unat index) (View_mask components) then
             (case those (map (\<lambda>(I, c).
                     if I = drivingIdx
                     then (if i < length (DenseData (GetStore w c))
                           then Some (DenseData (GetStore w c) ! i) else None)
                     else Get (GetStore w c) entity)
                   (zip [0..<length components] components)) of
                None \<Rightarrow> None
              | Some args \<Rightarrow> Some [(entity, args)])
           else Some [])
        else None)"

fun each_loop :: "(nat \<Rightarrow> EntityID \<Rightarrow> 'r list option) \<Rightarrow> nat \<Rightarrow> EntityID list \<Rightarrow> 'r list option" where
  "each_loop body i [] = Some []"
| "each_loop body i (entity # entities) =
    (case body i entity of
       None \<Rightarrow> None
     | Some r \<Rightarrow> (case each_loop body (Suc i) entities of
                    None \<Rightarrow> None
                  | Some rs \<Rightarrow> Some (r @ rs)))"

definition each_driven_by :: "'c World \<Rightarrow> nat list \<Rightarrow> nat \<Rightarrow> (EntityID \<times> 'c list) list option" where
  "each_driven_by w components c =
     each_loop (visit w components (first_index components c)) 0 (GetEntities (GetStore w c))"

definition Each :: "'c World \<Rightarrow> nat list \<Rightarrow> (EntityID \<times> 'c list) list option" where
  "Each w components =
    (if components = [] then Some []
     else case find_smallest w components of
            None \<Rightarrow> Some []
          | Some c \<Rightarrow> each_driven_by w components c)"

definition slots :: "nat list option list \<Rightarrow> 32 word \<Rightarrow> nat" where
  "slots pages index = (case read_slot pages index of None \<Rightarrow> k_NullIndex | Some d \<Rightarrow> d)"

definition pages_ok :: "nat list option list \<Rightarrow> bool" where
  "pages_ok pages = (\<forall>pg. Some pg \<in> set pages \<longrightarrow> length pg = k_PageSize)"

definition wf_SparseSet :: "'c SparseSet \<Rightarrow> bool" where
  "wf_SparseSet s \<longleftrightarrow>
     length (DenseData s) = length (DenseToEntity s) \<and>
     pages_ok (SparsePages s) \<and>
     (\<forall>i < length (DenseToEntity s). slots (SparsePages s) (GetIndex (DenseToEntity s ! i)) = i) \<and>
     (\<forall>index. slots (SparsePages s) index \<noteq> k_NullIndex \<longrightarrow>
        slots (SparsePages s) index < length (DenseToEntity s) \<and>
        GetIndex (DenseToEntity s ! slots (SparsePages s) index) = index)"

definition entries :: "'c SparseSet \<Rightarrow> 32 word \<Rightarrow> (EntityID \<times> 'c) option" where
  "entries s index =
     (let d = slots (SparsePages s) index
      in if d = k_NullIndex then None else Some (DenseToEntity s ! d, DenseData s ! d))"

definition holds :: "'c SparseSet \<Rightarrow> EntityID \<Rightarrow> bool" where
  "holds s e \<longleftrightarrow> (\<exists>v. entries s (GetIndex e) = Some (e, v))"


datatype 'c SetOp = OpInsert EntityID 'c | OpRemove EntityID

fun apply_op :: "'c SetOp \<Rightarrow> 'c SparseSet \<Rightarrow> 'c SparseSet option" where
  "apply_op (OpInsert e v) s = Insert e v s"
| "apply_op (OpRemove e) s = Remove e s"

fun run_ops :: "'c SetOp list \<Rightarrow> 'c SparseSet \<Rightarrow> 'c SparseSet option" where
  "run_ops [] s = Some s"
| "run_ops (op # ops) s = (case apply_op op s of None \<Rightarrow> None | Some s' \<Rightarrow> run_ops ops s')"

fun last_writer :: "'c SetOp list \<Rightarrow> (32 word \<Rightarrow> EntityID option) \<Rightarrow> 32 word \<Rightarrow> EntityID option" where
  "last_writer [] m = m"
| "last_writer (OpInsert e v # ops) m = last_writer ops (m(GetIndex e \<mapsto> e))"
| "last_writer (OpRemove e # ops) m = last_writer ops m"

definition e1_g0 :: EntityID where
  "e1_g0 = 1"

definition e1_g1 :: EntityID where
  "e1_g1 = 0x100000001"

definition names_set :: "string SparseSet" where
  "names_set = \<lparr>DenseData = [''Original''], DenseToEntity = [e1_g0],
                 SparsePages = [Some ((replicate k_PageSize k_NullIndex)[1 := 0])]\<rparr>"

definition scenario2 :: "string SetOp list" where
  "scenario2 = [OpInsert e1_g0 ''Original'', OpRemove e1_g1, OpInsert e1_g1 ''New'']"



definition observers :: "SignalStorage \<Rightarrow> ComponentEvent \<Rightarrow> callback list" where
  "observers signals event =
     (case event of Added \<Rightarrow> onAdded signals | Removed \<Rightarrow> onRemoved signals | Modified \<Rightarrow> onModified signals)"

definition registered :: "'c World \<Rightarrow> nat \<Rightarrow> ComponentEvent \<Rightarrow> callback list" where
  "registered w c event =
     (case ComponentSignals w c of None \<Rightarrow> [] | Some signals \<Rightarrow> observers signals event)"

definition event_calls :: "'c World \<Rightarrow> nat \<Rightarrow> EntityID \<Rightarrow> ComponentEvent \<Rightarrow> 'c \<Rightarrow> 'c Call list" where
  "event_calls w c e event v = map (\<lambda>cb. Call event c cb e v) (registered w c event)"

definition stored :: "'c SparseSet \<Rightarrow> EntityID \<Rightarrow> 'c" where
  "stored s e = DenseData s ! slots (SparsePages s) (GetIndex e)"

definition install_store :: "nat \<Rightarrow> nat option list \<Rightarrow> nat option list" where
  "install_store c stores =
     (if c \<ge> length stores then resize stores (c + 1) None else stores)[c := Some c]"

definition world1 :: "nat World" where
  "world1 = empty_World\<lparr>EntitySignatures := [MakeMask 0], EntityGenerations := [0]\<rparr>"

definition stale_world :: "nat World option" where
  "stale_world = do {
     (e0, w1) \<leftarrow> CreateEntity empty_World;
     w2 \<leftarrow> DestroyEntity e0 w1;
     (e1, w3) \<leftarrow> CreateEntity w2;
     AddComponent e1 0 42 w3
   }"

definition world_reused :: "nat World" where
  "world_reused = empty_World\<lparr>EntitySignatures := [ResetAll (MakeMask 0)], EntityGenerations := [1]\<rparr>"

definition world_observed :: "nat World" where
  "world_observed = OnEvent 0 Added 1 world1"

definition world_component :: "nat World" where
  "world_component = the (AddComponent 0 0 5 world_observed)"

definition world_inv :: "'c World \<Rightarrow> bool" where
  "world_inv w \<longleftrightarrow>
     length (EntityGenerations w) = length (EntitySignatures w) \<and>
     (\<forall>c. wf_SparseSet (ComponentStores w c)) \<and>
     (\<forall>c e. holds (ComponentStores w c) e \<longrightarrow>
        unat (GetIndex e) < length (EntitySignatures w) \<and>
        Test (EntitySignatures w ! unat (GetIndex e)) c \<and>
        EntityGenerations w ! unat (GetIndex e) = GetGeneration e) \<and>
     (\<forall>c index. unat index < length (EntitySignatures w) \<longrightarrow>
        Test (EntitySignatures w ! unat index) c \<longrightarrow>
        holds (ComponentStores w c) (MakeEntityID (EntityGenerations w ! unat index) index) \<and>
        c < length (StoresByID w) \<and> StoresByID w ! c = Some c \<and>
        c < length (OnRemovedTriggers w) \<and> OnRemovedTriggers w ! c) \<and>
     (\<forall>f \<in> set (FreeEntities w). unat (GetIndex f) < length (EntityGenerations w))"


definition create_with_id_ok :: "'c World \<Rightarrow> EntityID \<Rightarrow> bool" where
  "create_with_id_ok w e \<longleftrightarrow>
     (if unat (GetIndex e) < length (EntitySignatures w)
      then IsAlive w e = Some True \<or> (\<forall>c < 256. \<not> Test (EntitySignatures w ! unat (GetIndex e)) c)
      else GetIndex e \<noteq> - 1)"

datatype 'c ApiCall =
    CallCreateEntity
  | CallCreateEntitiesBulk nat
  | CallCreateEntityWithID EntityID
  | CallDestroyEntity EntityID
  | CallAddComponent EntityID nat 'c
  | CallRemoveComponent EntityID nat
  | CallPatchComponent EntityID nat "'c \<Rightarrow> 'c"
  | CallOnEvent nat ComponentEvent callback

fun apply_call :: "'c ApiCall \<Rightarrow> 'c World \<Rightarrow> 'c World option" where
  "apply_call CallCreateEntity w = map_option snd (CreateEntity w)"
| "apply_call (CallCreateEntitiesBulk n) w = map_option snd (CreateEntitiesBulk n w)"
| "apply_call (CallCreateEntityWithID e) w = map_option snd (CreateEntityWithID e w)"
| "apply_call (CallDestroyEntity e) w = DestroyEntity e w"
| "apply_call (CallAddComponent e c v) w = AddComponent e c v w"
| "apply_call (CallRemoveComponent e c) w = RemoveComponent e c w"
| "apply_call (CallPatchComponent e c func) w = PatchComponent e c func w"
| "apply_call (CallOnEvent c event cb) w = Some (OnEvent c event cb w)"

fun call_ok :: "'c World \<Rightarrow> 'c ApiCall \<Rightarrow> bool" where
  "call_ok w CallCreateEntity = True"
| "call_ok w (CallCreateEntitiesBulk n) = (length (EntitySignatures w) + n < 2 ^ 32)"
| "call_ok w (CallCreateEntityWithID e) = create_with_id_ok w e"
| "call_ok w (CallDestroyEntity e) = True"
| "call_ok w (CallAddComponent e c v) = (IsAlive w e = Some True \<and> c < 256)"
| "call_ok w (CallRemoveComponent e c) = (IsAlive w e = Some True \<or> \<not> HasComponent w e c)"
| "call_ok w (CallPatchComponent e c func) = (IsAlive w e = Some True \<or> \<not> HasComponent w e c)"
| "call_ok w (CallOnEvent c event cb) = True"

inductive reachable :: "'c World \<Rightarrow> bool" where
  reachable_empty: "reachable empty_World"
| reachable_step: "reachable w \<Longrightarrow> call_ok w call \<Longrightarrow> apply_call call w = Some w' \<Longrightarrow> reachable w'"

definition world_watched :: "nat World" where
  "world_watched = OnEvent 0 Removed 2 world_component"

definition world_large :: "nat World" where
  "world_large = the (AddComponent 0 256 7 world1)"

lemma low32_mask: "(0xFFFFFFFF :: 64 word) = mask 32"
  by (simp add: mask_eq_exp_minus_1)

lemma GetIndex_MakeEntityID: "GetIndex (MakeEntityID g i) = i"
  unfolding GetIndex_def MakeEntityID_def low32_mask
  by (rule bit_word_eqI) (auto simp add: bit_simps dest: bit_imp_le_length)

lemma GetGeneration_MakeEntityID: "GetGeneration (MakeEntityID g i) = g"
  unfolding GetGeneration_def MakeEntityID_def
  by (rule bit_word_eqI) (auto simp add: bit_simps dest: bit_imp_le_length)

lemma MakeEntityID_parts: "MakeEntityID (GetGeneration e) (GetIndex e) = e"
  unfolding GetGeneration_def MakeEntityID_def GetIndex_def low32_mask
  apply (rule bit_word_eqI)
  subgoal for n
    by (cases "n < 32") (auto simp add: bit_simps)
  done

lemma entity_eqI: "GetIndex a = GetIndex b \<Longrightarrow> GetGeneration a = GetGeneration b \<Longrightarrow> a = b"
  by (metis MakeEntityID_parts)

lemma unat_index_succ: "(index :: 32 word) \<noteq> - 1 \<Longrightarrow> unat (index + 1) = unat index + 1"
proof -
  assume "index \<noteq> - 1"
  then have "1 + index \<noteq> 0" by (simp add: eq_neg_iff_add_eq_0 add.commute)
  then have "unat (1 + index) = Suc (unat index)" by (rule unatSuc)
  then show ?thesis by (simp add: add.commute)
qed

lemma GetPageOffset_less [simp]: "GetPageOffset index < k_PageSize"
  by (simp add: GetPageOffset_def k_PageSize_def)

lemma page_index_eqI:
  "GetPageID i = GetPageID j \<Longrightarrow> GetPageOffset i = GetPageOffset j \<Longrightarrow> i = j"
proof -
  assume a: "GetPageID i = GetPageID j" and b: "GetPageOffset i = GetPageOffset j"
  have "unat i = k_PageSize * (unat i div k_PageSize) + unat i mod k_PageSize" by simp
  also have "\<dots> = k_PageSize * (unat j div k_PageSize) + unat j mod k_PageSize"
    using a b by (simp add: GetPageID_def GetPageOffset_def)
  also have "\<dots> = unat j" by simp
  finally show "i = j" using word_unat_eq_iff by blast
qed

lemma pages_ok_nth:
  "pages_ok pages \<Longrightarrow> p < length pages \<Longrightarrow> pages ! p = Some pg \<Longrightarrow> length pg = k_PageSize"
  unfolding pages_ok_def by (metis nth_mem)

lemma read_slot_Some_iff:
  "pages_ok pages \<Longrightarrow>
   read_slot pages index = (if GetPageID index < length pages then
      (case pages ! GetPageID index of None \<Rightarrow> None | Some pg \<Rightarrow> Some (pg ! GetPageOffset index)) else None)"
  by (auto simp: read_slot_def split: option.splits dest: pages_ok_nth)

lemma write_slot_ok:
  assumes "pages_ok pages" "write_slot pages index v = Some pages'"
  shows "pages_ok pages'" and "slots pages' j = (if j = index then v else slots pages j)"
    and "length pages' = length pages"
    and "\<And>p. p < length pages \<Longrightarrow> (pages' ! p = None) = (pages ! p = None)"
proof -
  from assms(2) obtain pg where
    p: "GetPageID index < length pages" "pages ! GetPageID index = Some pg"
       "GetPageOffset index < length pg"
       "pages' = pages[GetPageID index := Some (pg[GetPageOffset index := v])]"
    by (auto simp: write_slot_def split: if_splits option.splits)
  have lpg: "length pg = k_PageSize" using pages_ok_nth[OF assms(1) p(1,2)] .
  show "pages_ok pages'"
    using assms(1) lpg unfolding pages_ok_def p(4)
    by (auto dest!: set_update_subset_insert[THEN subsetD])
  show "length pages' = length pages" by (simp add: p(4))
  show "\<And>p. p < length pages \<Longrightarrow> (pages' ! p = None) = (pages ! p = None)"
    using p by (auto simp: nth_list_update)
  show "slots pages' j = (if j = index then v else slots pages j)"
  proof (cases "j = index")
    case True
    then show ?thesis using p by (simp add: slots_def read_slot_def)
  next
    case False
    show ?thesis
    proof (cases "GetPageID j = GetPageID index")
      case True
      with False have "GetPageOffset j \<noteq> GetPageOffset index"
        using page_index_eqI by blast
      then show ?thesis using p True False by (simp add: slots_def read_slot_def)
    next
      case F2: False
      then show ?thesis using p False by (simp add: slots_def read_slot_def)
    qed
  qed
qed

lemma write_slot_defined:
  "pages_ok pages \<Longrightarrow> GetPageID index < length pages \<Longrightarrow> pages ! GetPageID index \<noteq> None
   \<Longrightarrow> \<exists>pages'. write_slot pages index v = Some pages'"
  by (auto simp: write_slot_def dest: pages_ok_nth)

lemma slots_ne_null_page:
  "slots pages index \<noteq> k_NullIndex \<Longrightarrow>
     GetPageID index < length pages \<and> pages ! GetPageID index \<noteq> None"
  by (auto simp: slots_def read_slot_def split: if_splits option.splits)

lemma read_slot_slots:
  "pages_ok pages \<Longrightarrow> GetPageID index < length pages \<Longrightarrow> pages ! GetPageID index \<noteq> None
   \<Longrightarrow> read_slot pages index = Some (slots pages index)"
  by (auto simp: slots_def read_slot_def dest: pages_ok_nth)


lemma EnsurePage_ok:
  assumes "pages_ok pages"
  shows "pages_ok (EnsurePage pages pid)"
    and "pid < length (EnsurePage pages pid)"
    and "EnsurePage pages pid ! pid \<noteq> None"
proof -
  let ?p1 = "if pid \<ge> length pages then pages @ replicate (pid + 1 - length pages) None else pages"
  have ok1: "pages_ok ?p1" using assms by (auto simp: pages_ok_def)
  have len1: "pid < length ?p1" by auto
  show "pages_ok (EnsurePage pages pid)"
    using ok1 unfolding EnsurePage_def Let_def pages_ok_def
    by (auto dest!: set_update_subset_insert[THEN subsetD])
  show "pid < length (EnsurePage pages pid)"
    using len1 unfolding EnsurePage_def Let_def by auto
  show "EnsurePage pages pid ! pid \<noteq> None"
    using len1 unfolding EnsurePage_def Let_def by auto
qed

lemma slots_EnsurePage:
  "slots (EnsurePage pages pid) j = slots pages j"
proof -
  let ?p1 = "if pid \<ge> length pages then pages @ replicate (pid + 1 - length pages) None else pages"
  have a: "slots ?p1 j = slots pages j"
    by (auto simp: slots_def read_slot_def nth_append split: option.splits)
  have b: "slots (if ?p1 ! pid = None then ?p1[pid := Some (replicate k_PageSize k_NullIndex)] else ?p1) j
           = slots ?p1 j"
  proof (cases "?p1 ! pid = None \<and> GetPageID j = pid")
    case True
    have "pid < length ?p1" by auto
    then show ?thesis using True
      by (simp add: slots_def read_slot_def)
  next
    case False
    then show ?thesis
      by (auto simp: slots_def read_slot_def nth_list_update split: option.splits)
  qed
  show ?thesis unfolding EnsurePage_def Let_def using a b by simp
qed

lemma wf_inj_on:
  assumes "wf_SparseSet s"
  shows "inj_on (\<lambda>i. GetIndex (DenseToEntity s ! i)) {..<length (DenseToEntity s)}"
proof (rule inj_onI)
  fix i j
  assume i: "i \<in> {..<length (DenseToEntity s)}"
  assume j: "j \<in> {..<length (DenseToEntity s)}"
  assume eq: "GetIndex (DenseToEntity s ! i) = GetIndex (DenseToEntity s ! j)"
  have b: "\<forall>i < length (DenseToEntity s). slots (SparsePages s) (GetIndex (DenseToEntity s ! i)) = i"
    using assms unfolding wf_SparseSet_def by blast
  have "slots (SparsePages s) (GetIndex (DenseToEntity s ! i)) = i" using b i by blast
  moreover have "slots (SparsePages s) (GetIndex (DenseToEntity s ! j)) = j" using b j by blast
  ultimately show "i = j" unfolding eq by simp
qed

lemma wf_length_bound:
  assumes "wf_SparseSet s"
  shows "length (DenseToEntity s) < k_NullIndex"
proof -
  have "card {..<length (DenseToEntity s)} \<le> card (UNIV :: 32 word set)"
    by (rule card_inj_on_le[OF wf_inj_on[OF assms]]) auto
  then have "length (DenseToEntity s) \<le> 2 ^ 32" by (simp add: card_word)
  then show ?thesis by (simp add: k_NullIndex_def)
qed

lemma wf_empty: "wf_SparseSet empty_SparseSet"
  by (simp add: wf_SparseSet_def empty_SparseSet_def pages_ok_def slots_def read_slot_def)

lemma entries_empty: "entries empty_SparseSet index = None"
  by (simp add: entries_def empty_SparseSet_def slots_def read_slot_def)

lemma wf_D:
  assumes "wf_SparseSet s"
  shows "length (DenseData s) = length (DenseToEntity s)"
    and "pages_ok (SparsePages s)"
    and "\<And>i. i < length (DenseToEntity s) \<Longrightarrow> slots (SparsePages s) (GetIndex (DenseToEntity s ! i)) = i"
    and "\<And>index. slots (SparsePages s) index \<noteq> k_NullIndex \<Longrightarrow> slots (SparsePages s) index < length (DenseToEntity s)"
    and "\<And>index. slots (SparsePages s) index \<noteq> k_NullIndex \<Longrightarrow> GetIndex (DenseToEntity s ! slots (SparsePages s) index) = index"
  using assms unfolding wf_SparseSet_def by blast+

lemma wf_slot_not_null:
  "wf_SparseSet s \<Longrightarrow> i < length (DenseToEntity s) \<Longrightarrow> i \<noteq> k_NullIndex"
  using wf_length_bound by fastforce

lemma EnsurePage_read:
  assumes "pages_ok pages"
  shows "read_slot (EnsurePage pages (GetPageID index)) index = Some (slots pages index)"
proof -
  have a: "pages_ok (EnsurePage pages (GetPageID index))" using EnsurePage_ok(1)[OF assms] .
  have b: "GetPageID index < length (EnsurePage pages (GetPageID index))" using EnsurePage_ok(2)[OF assms] .
  have c: "EnsurePage pages (GetPageID index) ! GetPageID index \<noteq> None" using EnsurePage_ok(3)[OF assms] .
  show ?thesis using read_slot_slots[OF a b c] by (simp add: slots_EnsurePage)
qed

lemma EnsurePage_write:
  assumes "pages_ok pages"
  shows "\<exists>pages3. write_slot (EnsurePage pages (GetPageID index)) index v = Some pages3"
proof -
  have a: "pages_ok (EnsurePage pages (GetPageID index))" using EnsurePage_ok(1)[OF assms] .
  have b: "GetPageID index < length (EnsurePage pages (GetPageID index))" using EnsurePage_ok(2)[OF assms] .
  have c: "EnsurePage pages (GetPageID index) ! GetPageID index \<noteq> None" using EnsurePage_ok(3)[OF assms] .
  show ?thesis using write_slot_defined[OF a b c] .
qed

lemma Insert_overwrite:
  assumes wf: "wf_SparseSet s" and d: "slots (SparsePages s) (GetIndex e) \<noteq> k_NullIndex"
  shows "Insert e v s = Some (s\<lparr>DenseData := (DenseData s)[slots (SparsePages s) (GetIndex e) := v],
                       DenseToEntity := (DenseToEntity s)[slots (SparsePages s) (GetIndex e) := e],
                       SparsePages := EnsurePage (SparsePages s) (GetPageID (GetIndex e))\<rparr>)"
proof -
  have r: "read_slot (EnsurePage (SparsePages s) (GetPageID (GetIndex e))) (GetIndex e)
             = Some (slots (SparsePages s) (GetIndex e))"
    using EnsurePage_read[OF wf_D(2)[OF wf]] .
  show ?thesis
    unfolding Insert_def Let_def r using d wf_D(4)[OF wf d] wf_D(1)[OF wf] by simp
qed

lemma Insert_push:
  assumes wf: "wf_SparseSet s" and d: "slots (SparsePages s) (GetIndex e) = k_NullIndex"
  shows "\<exists>pages3. write_slot (EnsurePage (SparsePages s) (GetPageID (GetIndex e))) (GetIndex e) (length (DenseData s)) = Some pages3 \<and>
     Insert e v s = Some (s\<lparr>DenseData := DenseData s @ [v],
                       DenseToEntity := DenseToEntity s @ [e],
                       SparsePages := pages3\<rparr>)"
proof -
  have r: "read_slot (EnsurePage (SparsePages s) (GetPageID (GetIndex e))) (GetIndex e) = Some k_NullIndex"
    using EnsurePage_read[OF wf_D(2)[OF wf], of "GetIndex e"] d by simp
  obtain pages3 where w: "write_slot (EnsurePage (SparsePages s) (GetPageID (GetIndex e))) (GetIndex e) (length (DenseData s)) = Some pages3"
    using EnsurePage_write[OF wf_D(2)[OF wf]] by blast
  show ?thesis
    unfolding Insert_def Let_def r w by simp
qed


lemma Insert_wf_overwrite:
  assumes wf: "wf_SparseSet s" and False: "slots (SparsePages s) (GetIndex e) \<noteq> k_NullIndex"
  shows "\<exists>s'. Insert e v s = Some s' \<and> wf_SparseSet s' \<and>
               entries s' = (entries s)(GetIndex e \<mapsto> (e, v))"
proof -
  define d where "d = slots (SparsePages s) (GetIndex e)"
  define p2 where "p2 = EnsurePage (SparsePages s) (GetPageID (GetIndex e))"
  define s' where "s' = s\<lparr>DenseData := (DenseData s)[d := v], DenseToEntity := (DenseToEntity s)[d := e], SparsePages := p2\<rparr>"
  have ins: "Insert e v s = Some s'" using Insert_overwrite[OF wf False] by (simp add: s'_def d_def p2_def)
  have dl: "d < length (DenseToEntity s)" using wf_D(4)[OF wf False] by (simp add: d_def)
  have de: "GetIndex (DenseToEntity s ! d) = GetIndex e" using wf_D(5)[OF wf False] by (simp add: d_def)
  have sl: "\<And>j. slots p2 j = slots (SparsePages s) j" by (simp add: slots_EnsurePage p2_def)
  have sd: "\<And>j. slots (SparsePages s) j = d \<Longrightarrow> j = GetIndex e"
  proof -
    fix j assume a: "slots (SparsePages s) j = d"
    have "slots (SparsePages s) j \<noteq> k_NullIndex" using a False by (simp add: d_def)
    from wf_D(5)[OF wf this] have "GetIndex (DenseToEntity s ! d) = j" unfolding a .
    then show "j = GetIndex e" using de by simp
  qed
  have f_s': "DenseData s' = (DenseData s)[d := v]" "DenseToEntity s' = (DenseToEntity s)[d := e]"
      "SparsePages s' = p2" by (simp_all add: s'_def)
  have wf': "wf_SparseSet s'"
    unfolding wf_SparseSet_def f_s'
  proof (intro conjI allI impI)
    show "length ((DenseData s)[d := v]) = length ((DenseToEntity s)[d := e])" using wf_D(1)[OF wf] by simp
    show "pages_ok p2" using EnsurePage_ok(1)[OF wf_D(2)[OF wf]] by (simp add: p2_def)
  next
    fix i assume "i < length ((DenseToEntity s)[d := e])"
    then have i: "i < length (DenseToEntity s)" by simp
    show "slots p2 (GetIndex ((DenseToEntity s)[d := e] ! i)) = i"
    proof (cases "i = d")
      case True
      then show ?thesis using i by (simp add: sl d_def)
    next
      case F: False
      then show ?thesis using wf_D(3)[OF wf i] i by (simp add: sl)
    qed
  next
    fix index assume n: "slots p2 index \<noteq> k_NullIndex"
    then have n': "slots (SparsePages s) index \<noteq> k_NullIndex" by (simp add: sl)
    show "slots p2 index < length ((DenseToEntity s)[d := e])"
      using wf_D(4)[OF wf n'] by (simp add: sl)
    show "GetIndex ((DenseToEntity s)[d := e] ! slots p2 index) = index"
    proof (cases "slots (SparsePages s) index = d")
      case True
      then show ?thesis using sd[OF True] dl by (simp add: sl)
    next
      case F: False
      then show ?thesis using wf_D(5)[OF wf n'] by (simp add: sl)
    qed
  qed
  have ent: "entries s' = (entries s)(GetIndex e \<mapsto> (e, v))"
  proof
    fix j
    show "entries s' j = ((entries s)(GetIndex e \<mapsto> (e, v))) j"
    proof (cases "j = GetIndex e")
      case True
      have "slots (SparsePages s) j = d" using True by (simp add: d_def)
      then show ?thesis using True False dl wf_D(1)[OF wf] by (simp add: entries_def sl Let_def f_s' d_def)
    next
      case F: False
      show ?thesis
      proof (cases "slots (SparsePages s) j = k_NullIndex")
        case True
        then show ?thesis using F by (simp add: entries_def sl Let_def f_s')
      next
        case N: False
        have "slots (SparsePages s) j \<noteq> d" using sd F by blast
        then show ?thesis using F N by (simp add: entries_def sl Let_def f_s')
      qed
    qed
  qed
  show ?thesis using ins wf' ent by blast
qed


lemma Insert_wf_push:
  assumes wf: "wf_SparseSet s" and True: "slots (SparsePages s) (GetIndex e) = k_NullIndex"
  shows "\<exists>s'. Insert e v s = Some s' \<and> wf_SparseSet s' \<and>
               entries s' = (entries s)(GetIndex e \<mapsto> (e, v))"
proof -
  define p2 where "p2 = EnsurePage (SparsePages s) (GetPageID (GetIndex e))"
  define n where "n = length (DenseToEntity s)"
  have len: "length (DenseData s) = n" using wf_D(1)[OF wf] by (simp add: n_def)
  obtain pages3 where w: "write_slot p2 (GetIndex e) n = Some pages3"
    and ins0: "Insert e v s = Some (s\<lparr>DenseData := DenseData s @ [v], DenseToEntity := DenseToEntity s @ [e], SparsePages := pages3\<rparr>)"
    using Insert_push[OF wf True, of v] unfolding p2_def len by blast
  define s' where "s' = s\<lparr>DenseData := DenseData s @ [v], DenseToEntity := DenseToEntity s @ [e], SparsePages := pages3\<rparr>"
  have ins: "Insert e v s = Some s'" using ins0 by (simp add: s'_def)
  have f_s': "DenseData s' = DenseData s @ [v]" "DenseToEntity s' = DenseToEntity s @ [e]"
      "SparsePages s' = pages3" by (simp_all add: s'_def)
  have ok2: "pages_ok p2" using EnsurePage_ok(1)[OF wf_D(2)[OF wf]] by (simp add: p2_def)
  have sl: "\<And>j. slots pages3 j = (if j = GetIndex e then n else slots (SparsePages s) j)"
    using write_slot_ok(2)[OF ok2 w] by (simp add: slots_EnsurePage p2_def)
  have nn: "n \<noteq> k_NullIndex" using wf_length_bound[OF wf] by (simp add: n_def)
  have ne: "\<And>i. i < n \<Longrightarrow> GetIndex (DenseToEntity s ! i) \<noteq> GetIndex e"
  proof
    fix i assume i: "i < n" and eq: "GetIndex (DenseToEntity s ! i) = GetIndex e"
    have i': "i < length (DenseToEntity s)" using i by (simp add: n_def)
    have "slots (SparsePages s) (GetIndex e) = i" using wf_D(3)[OF wf i'] unfolding eq .
    then show False using True wf_slot_not_null[OF wf i'] by simp
  qed
  have wf': "wf_SparseSet s'"
    unfolding wf_SparseSet_def f_s'
  proof (intro conjI allI impI)
    show "length (DenseData s @ [v]) = length (DenseToEntity s @ [e])" using len by (simp add: n_def)
    show "pages_ok pages3" using write_slot_ok(1)[OF ok2 w] .
  next
    fix i assume "i < length (DenseToEntity s @ [e])"
    then consider "i < n" | "i = n" unfolding n_def by fastforce
    then show "slots pages3 (GetIndex ((DenseToEntity s @ [e]) ! i)) = i"
    proof cases
      case 1
      have i': "i < length (DenseToEntity s)" using 1 by (simp add: n_def)
      show ?thesis using ne[OF 1] wf_D(3)[OF wf i'] i' by (simp add: sl nth_append)
    next
      case 2
      then show ?thesis by (simp add: sl n_def)
    qed
  next
    fix index assume nz: "slots pages3 index \<noteq> k_NullIndex"
    show "slots pages3 index < length (DenseToEntity s @ [e])"
    proof (cases "index = GetIndex e")
      case True
      then show ?thesis by (simp add: sl n_def)
    next
      case F: False
      then have "slots (SparsePages s) index \<noteq> k_NullIndex" using nz by (simp add: sl)
      from wf_D(4)[OF wf this] show ?thesis using F by (simp add: sl)
    qed
    show "GetIndex ((DenseToEntity s @ [e]) ! slots pages3 index) = index"
    proof (cases "index = GetIndex e")
      case True
      then show ?thesis by (simp add: sl n_def)
    next
      case F: False
      then have nz': "slots (SparsePages s) index \<noteq> k_NullIndex" using nz by (simp add: sl)
      show ?thesis using wf_D(4)[OF wf nz'] wf_D(5)[OF wf nz'] F by (simp add: sl nth_append)
    qed
  qed
  have ent: "entries s' = (entries s)(GetIndex e \<mapsto> (e, v))"
  proof
    fix j
    show "entries s' j = ((entries s)(GetIndex e \<mapsto> (e, v))) j"
    proof (cases "j = GetIndex e")
      case True
      then show ?thesis using nn len by (simp add: entries_def sl Let_def f_s' n_def nth_append)
    next
      case F: False
      show ?thesis
      proof (cases "slots (SparsePages s) j = k_NullIndex")
        case True
        then show ?thesis using F by (simp add: entries_def sl Let_def f_s')
      next
        case N: False
        show ?thesis using wf_D(4)[OF wf N] F N len
          by (simp add: entries_def sl Let_def f_s' nth_append n_def)
      qed
    qed
  qed
  show ?thesis using ins wf' ent by blast
qed

lemma Insert_wf:
  assumes wf: "wf_SparseSet s"
  shows "\<exists>s'. Insert e v s = Some s' \<and> wf_SparseSet s' \<and>
               entries s' = (entries s)(GetIndex e \<mapsto> (e, v))"
  using Insert_wf_overwrite[OF wf] Insert_wf_push[OF wf] by blast

lemma slots_no_page:
  "GetPageID index \<ge> length pages \<or> pages ! GetPageID index = None \<Longrightarrow> slots pages index = k_NullIndex"
  by (auto simp: slots_def read_slot_def)

lemma read_slot_page:
  "pages_ok pages \<Longrightarrow> \<not> (GetPageID index \<ge> length pages \<or> pages ! GetPageID index = None)
   \<Longrightarrow> read_slot pages index = Some (slots pages index)"
  using read_slot_slots[of pages index] by auto

lemma entries_Some_iff:
  "entries s index = Some (e, v) \<longleftrightarrow>
     slots (SparsePages s) index \<noteq> k_NullIndex \<and>
     DenseToEntity s ! slots (SparsePages s) index = e \<and>
     DenseData s ! slots (SparsePages s) index = v"
  by (auto simp: entries_def Let_def)

lemma entries_None_iff:
  "entries s index = None \<longleftrightarrow> slots (SparsePages s) index = k_NullIndex"
  by (auto simp: entries_def Let_def)

lemma holds_iff:
  "holds s e \<longleftrightarrow> slots (SparsePages s) (GetIndex e) \<noteq> k_NullIndex \<and>
     DenseToEntity s ! slots (SparsePages s) (GetIndex e) = e"
  by (auto simp: holds_def entries_Some_iff)

lemma Contains_wf:
  assumes wf: "wf_SparseSet s"
  shows "Contains s e = Some (holds s e)"
proof (cases "GetPageID (GetIndex e) \<ge> length (SparsePages s) \<or> SparsePages s ! GetPageID (GetIndex e) = None")
  case True
  then show ?thesis using slots_no_page[OF True]
    by (auto simp: Contains_def Let_def holds_iff)
next
  case False
  have r: "read_slot (SparsePages s) (GetIndex e) = Some (slots (SparsePages s) (GetIndex e))"
    using read_slot_page[OF wf_D(2)[OF wf] False] .
  show ?thesis using False wf_D(4)[OF wf, of "GetIndex e"]
    by (auto simp: Contains_def Let_def holds_iff r)
qed

lemma GetRef_wf:
  assumes wf: "wf_SparseSet s"
  shows "GetRef s e = (if holds s e then Some (slots (SparsePages s) (GetIndex e)) else None)"
proof (cases "holds s e")
  case False
  then show ?thesis by (simp add: GetRef_def Contains_wf[OF wf])
next
  case True
  then have nz: "slots (SparsePages s) (GetIndex e) \<noteq> k_NullIndex" by (simp add: holds_iff)
  have pg: "\<not> (GetPageID (GetIndex e) \<ge> length (SparsePages s) \<or> SparsePages s ! GetPageID (GetIndex e) = None)"
    using slots_no_page[of "SparsePages s" "GetIndex e"] nz by blast
  have r: "read_slot (SparsePages s) (GetIndex e) = Some (slots (SparsePages s) (GetIndex e))"
    using read_slot_page[OF wf_D(2)[OF wf] pg] .
  show ?thesis using True wf_D(4)[OF wf nz] wf_D(1)[OF wf]
    by (simp add: GetRef_def Contains_wf[OF wf] r)
qed

lemma Get_wf:
  assumes wf: "wf_SparseSet s"
  shows "Get s e = (if holds s e then Some (DenseData s ! slots (SparsePages s) (GetIndex e)) else None)"
  by (simp add: Get_def GetRef_wf[OF wf])

lemma Remove_noop:
  assumes wf: "wf_SparseSet s" and nh: "\<not> holds s e"
  shows "Remove e s = Some s"
proof (cases "GetPageID (GetIndex e) \<ge> length (SparsePages s) \<or> SparsePages s ! GetPageID (GetIndex e) = None")
  case True
  then show ?thesis by (auto simp: Remove_def Let_def)
next
  case False
  have r: "read_slot (SparsePages s) (GetIndex e) = Some (slots (SparsePages s) (GetIndex e))"
    using read_slot_page[OF wf_D(2)[OF wf] False] .
  show ?thesis using False nh wf_D(4)[OF wf, of "GetIndex e"]
    by (auto simp: Remove_def Let_def holds_iff r)
qed

lemma Remove_present:
  assumes wf: "wf_SparseSet s" and h: "holds s e"
  defines "d \<equiv> slots (SparsePages s) (GetIndex e)"
  defines "n \<equiv> length (DenseToEntity s)"
  defines "li \<equiv> GetIndex (DenseToEntity s ! (n - 1))"
  shows "\<exists>s'. Remove e s = Some s' \<and>
          DenseToEntity s' = butlast ((DenseToEntity s)[d := DenseToEntity s ! (n - 1)]) \<and>
          DenseData s' = butlast ((DenseData s)[d := DenseData s ! (n - 1)]) \<and>
          pages_ok (SparsePages s') \<and>
          (\<forall>j. slots (SparsePages s') j =
                (if j = GetIndex e then k_NullIndex else if j = li then d else slots (SparsePages s) j))"
proof -
  have nz: "d \<noteq> k_NullIndex" and ed: "DenseToEntity s ! d = e"
    using h by (simp_all add: holds_iff d_def)
  have dn: "d < n" using wf_D(4)[OF wf nz[unfolded d_def]] by (simp add: d_def n_def)
  have len: "length (DenseData s) = n" using wf_D(1)[OF wf] by (simp add: n_def)
  have ok: "pages_ok (SparsePages s)" using wf_D(2)[OF wf] .
  have pg: "\<not> (GetPageID (GetIndex e) \<ge> length (SparsePages s) \<or> SparsePages s ! GetPageID (GetIndex e) = None)"
    using slots_no_page[of "SparsePages s" "GetIndex e"] nz by (auto simp: d_def)
  have r: "read_slot (SparsePages s) (GetIndex e) = Some d"
    using read_slot_page[OF ok pg] by (simp add: d_def)
  have ne: "DenseData s \<noteq> []" using dn len by auto
  have lastn: "n - 1 < n" using dn by simp
  have sli: "slots (SparsePages s) li = n - 1"
    using wf_D(3)[OF wf, of "n - 1"] lastn by (simp add: li_def n_def)
  show ?thesis
  proof (cases "d = n - 1")
    case True
    have li_e: "li = GetIndex e"
      using wf_D(5)[OF wf nz[unfolded d_def]] True by (simp add: li_def d_def)
    obtain pages2 where w2: "write_slot (SparsePages s) (GetIndex e) k_NullIndex = Some pages2"
      using write_slot_defined[OF ok, of "GetIndex e" k_NullIndex] pg by auto
    have rem: "Remove e s = Some (s\<lparr>DenseData := butlast (DenseData s),
                      DenseToEntity := butlast (DenseToEntity s), SparsePages := pages2\<rparr>)"
      using pg nz dn ed ne True len w2
      by (auto simp add: Remove_def Let_def r n_def)
    have u1: "(DenseToEntity s)[d := DenseToEntity s ! (n - 1)] = DenseToEntity s"
      using True by simp
    have u2: "(DenseData s)[d := DenseData s ! (n - 1)] = DenseData s"
      using True by simp
    show ?thesis
      using rem write_slot_ok(1)[OF ok w2] write_slot_ok(2)[OF ok w2] li_e u1 u2
      by simp
  next
    case False
    have lnz: "slots (SparsePages s) li \<noteq> k_NullIndex"
      using sli wf_slot_not_null[OF wf, of "n - 1"] lastn by (simp add: n_def)
    have pgl: "GetPageID li < length (SparsePages s)" "SparsePages s ! GetPageID li \<noteq> None"
      using slots_ne_null_page[OF lnz] by auto
    obtain pages1 where w1: "write_slot (SparsePages s) li d = Some pages1"
      using write_slot_defined[OF ok pgl] by blast
    have ok1: "pages_ok pages1" using write_slot_ok(1)[OF ok w1] .
    have sl1: "\<And>j. slots pages1 j = (if j = li then d else slots (SparsePages s) j)"
      using write_slot_ok(2)[OF ok w1] .
    have pg1: "GetPageID (GetIndex e) < length pages1" "pages1 ! GetPageID (GetIndex e) \<noteq> None"
      using write_slot_ok(3)[OF ok w1] write_slot_ok(4)[OF ok w1, of "GetPageID (GetIndex e)"] pg by auto
    obtain pages2 where w2: "write_slot pages1 (GetIndex e) k_NullIndex = Some pages2"
      using write_slot_defined[OF ok1 pg1] by blast
    have ok2: "pages_ok pages2" using write_slot_ok(1)[OF ok1 w2] .
    have sl2: "\<And>j. slots pages2 j = (if j = GetIndex e then k_NullIndex else slots pages1 j)"
      using write_slot_ok(2)[OF ok1 w2] .
    have rem: "Remove e s = Some (s\<lparr>DenseData := butlast ((DenseData s)[d := DenseData s ! (n - 1)]),
                      DenseToEntity := butlast ((DenseToEntity s)[d := DenseToEntity s ! (n - 1)]),
                      SparsePages := pages2\<rparr>)"
      using pg nz dn ed ne False len w1 w2 lastn
      by (auto simp add: Remove_def Let_def r n_def li_def)
    show ?thesis
      using rem ok2 by (simp add: sl2 sl1)
  qed
qed

lemma Remove_wf_present:
  assumes wf: "wf_SparseSet s" and h: "holds s e"
  shows "\<exists>s'. Remove e s = Some s' \<and> wf_SparseSet s' \<and>
               entries s' = (entries s)(GetIndex e := None)"
proof -
  define d where "d = slots (SparsePages s) (GetIndex e)"
  define n where "n = length (DenseToEntity s)"
  define le where "le = DenseToEntity s ! (n - 1)"
  define li where "li = GetIndex le"
  obtain s' where rem: "Remove e s = Some s'"
    and E: "DenseToEntity s' = butlast ((DenseToEntity s)[d := le])"
    and D: "DenseData s' = butlast ((DenseData s)[d := DenseData s ! (n - 1)])"
    and ok': "pages_ok (SparsePages s')"
    and sl: "\<And>j. slots (SparsePages s') j =
                (if j = GetIndex e then k_NullIndex else if j = li then d else slots (SparsePages s) j)"
    using Remove_present[OF wf h] unfolding d_def n_def li_def le_def by blast
  have nz: "d \<noteq> k_NullIndex" and ed: "DenseToEntity s ! d = e"
    using h by (simp_all add: holds_iff d_def)
  have dn: "d < n" using wf_D(4)[OF wf nz[unfolded d_def]] by (simp add: d_def n_def)
  have len: "length (DenseData s) = n" using wf_D(1)[OF wf] by (simp add: n_def)
  have lenE: "length (DenseToEntity s) = n" by (simp add: n_def)
  have sli: "slots (SparsePages s) li = n - 1"
    using wf_D(3)[OF wf, of "n - 1"] dn by (simp add: li_def le_def n_def)
  have sd: "\<And>j. slots (SparsePages s) j = d \<Longrightarrow> j = GetIndex e"
  proof -
    fix j assume a: "slots (SparsePages s) j = d"
    have "slots (SparsePages s) j \<noteq> k_NullIndex" using a nz by simp
    from wf_D(5)[OF wf this] have "GetIndex (DenseToEntity s ! d) = j" unfolding a .
    then show "j = GetIndex e" using ed by simp
  qed
  have sl_last: "\<And>j. slots (SparsePages s) j = n - 1 \<Longrightarrow> j = li"
  proof -
    fix j assume a: "slots (SparsePages s) j = n - 1"
    have "slots (SparsePages s) j \<noteq> k_NullIndex"
      using a wf_slot_not_null[OF wf, of "n - 1"] dn by (simp add: n_def)
    from wf_D(5)[OF wf this] show "j = li" unfolding a li_def le_def by simp
  qed
  have nthE: "\<And>i. i < n - 1 \<Longrightarrow> DenseToEntity s' ! i = (if i = d then le else DenseToEntity s ! i)"
    unfolding E using lenE by (simp add: nth_butlast nth_list_update)
  have nthD: "\<And>i. i < n - 1 \<Longrightarrow> DenseData s' ! i = (if i = d then DenseData s ! (n - 1) else DenseData s ! i)"
    unfolding D using len by (simp add: nth_butlast nth_list_update)
  have lenE': "length (DenseToEntity s') = n - 1" unfolding E using lenE by simp
  have lenD': "length (DenseData s') = n - 1" unfolding D using len by simp
  have li_ne: "d \<noteq> n - 1 \<Longrightarrow> li \<noteq> GetIndex e"
    using sli by (auto simp: d_def)
  have wf': "wf_SparseSet s'"
    unfolding wf_SparseSet_def
  proof (intro conjI allI impI)
    show "length (DenseData s') = length (DenseToEntity s')" using lenE' lenD' by simp
    show "pages_ok (SparsePages s')" using ok' .
  next
    fix i assume "i < length (DenseToEntity s')"
    then have i: "i < n - 1" using lenE' by simp
    show "slots (SparsePages s') (GetIndex (DenseToEntity s' ! i)) = i"
    proof (cases "i = d")
      case True
      then have "d \<noteq> n - 1" using i by simp
      then show ?thesis using True li_ne nthE[OF i] by (simp add: sl li_def)
    next
      case False
      have i': "i < length (DenseToEntity s)" using i lenE by simp
      have a: "slots (SparsePages s) (GetIndex (DenseToEntity s ! i)) = i" using wf_D(3)[OF wf i'] .
      have "GetIndex (DenseToEntity s ! i) \<noteq> GetIndex e" using a sd[of "GetIndex (DenseToEntity s ! i)"] False
        by (auto simp: d_def)
      moreover have "GetIndex (DenseToEntity s ! i) \<noteq> li" using a sli i by auto
      ultimately show ?thesis using a False nthE[OF i] by (simp add: sl)
    qed
  next
    fix index assume nn: "slots (SparsePages s') index \<noteq> k_NullIndex"
    then have ie: "index \<noteq> GetIndex e" by (auto simp: sl)
    show "slots (SparsePages s') index < length (DenseToEntity s')"
    proof (cases "index = li")
      case True
      then have "d \<noteq> n - 1" using ie sli sd[of li] by auto
      then show ?thesis using True ie dn lenE' by (simp add: sl)
    next
      case False
      then have a: "slots (SparsePages s) index \<noteq> k_NullIndex" using nn ie by (simp add: sl)
      have "slots (SparsePages s) index < n" using wf_D(4)[OF wf a] lenE by simp
      moreover have "slots (SparsePages s) index \<noteq> n - 1" using sl_last False by blast
      ultimately show ?thesis using False ie lenE' by (simp add: sl)
    qed
    show "GetIndex (DenseToEntity s' ! slots (SparsePages s') index) = index"
    proof (cases "index = li")
      case True
      then have dl: "d \<noteq> n - 1" using ie sli sd[of li] by auto
      then have "d < n - 1" using dn by simp
      from nthE[OF this] show ?thesis using True ie by (simp add: sl li_def)
    next
      case False
      then have a: "slots (SparsePages s) index \<noteq> k_NullIndex" using nn ie by (simp add: sl)
      have b: "slots (SparsePages s) index < n" using wf_D(4)[OF wf a] lenE by simp
      have c: "slots (SparsePages s) index \<noteq> n - 1" using sl_last False by blast
      have d': "slots (SparsePages s) index \<noteq> d" using sd ie by blast
      have "slots (SparsePages s) index < n - 1" using b c by simp
      from nthE[OF this] show ?thesis using False ie d' wf_D(5)[OF wf a] by (simp add: sl)
    qed
  qed
  have ent: "entries s' = (entries s)(GetIndex e := None)"
  proof
    fix j
    show "entries s' j = ((entries s)(GetIndex e := None)) j"
    proof (cases "j = GetIndex e")
      case True
      then show ?thesis by (simp add: entries_def sl)
    next
      case ie: False
      show ?thesis
      proof (cases "j = li")
        case True
        then have dl: "d \<noteq> n - 1" using ie sli sd[of li] by auto
        then have dl': "d < n - 1" using dn by simp
        have "n - 1 \<noteq> k_NullIndex" using wf_slot_not_null[OF wf, of "n - 1"] dn lenE by simp
        then show ?thesis using True ie nz nthE[OF dl'] nthD[OF dl'] sli
          by (simp add: entries_def sl Let_def le_def)
      next
        case False
        show ?thesis
        proof (cases "slots (SparsePages s) j = k_NullIndex")
          case True
          then show ?thesis using False ie by (simp add: entries_def sl Let_def)
        next
          case a: False
          have b: "slots (SparsePages s) j < n" using wf_D(4)[OF wf a] lenE by simp
          have c: "slots (SparsePages s) j \<noteq> n - 1" using sl_last False by blast
          have d': "slots (SparsePages s) j \<noteq> d" using sd ie by blast
          have l: "slots (SparsePages s) j < n - 1" using b c by simp
          show ?thesis using False ie a d' nthE[OF l] nthD[OF l]
            by (simp add: entries_def sl Let_def)
        qed
      qed
    qed
  qed
  show ?thesis using rem wf' ent by blast
qed

lemma holds_entries: "holds s e \<longleftrightarrow> (\<exists>v. entries s (GetIndex e) = Some (e, v))"
  by (simp add: holds_def)

lemma Remove_wf:
  assumes wf: "wf_SparseSet s"
  shows "\<exists>s'. Remove e s = Some s' \<and> wf_SparseSet s' \<and>
               entries s' = (if holds s e then (entries s)(GetIndex e := None) else entries s) \<and>
               (\<not> holds s e \<longrightarrow> s' = s)"
proof (cases "holds s e")
  case True
  then show ?thesis using Remove_wf_present[OF wf True] by auto
next
  case False
  then show ?thesis using Remove_noop[OF wf False] wf by auto
qed

lemma wf_set_entities:
  assumes wf: "wf_SparseSet s"
  shows "set (DenseToEntity s) = {e. holds s e}"
proof (intro set_eqI iffI)
  fix e assume "e \<in> set (DenseToEntity s)"
  then obtain i where i: "i < length (DenseToEntity s)" and e: "DenseToEntity s ! i = e"
    by (auto simp: in_set_conv_nth)
  have a: "slots (SparsePages s) (GetIndex e) = i" using wf_D(3)[OF wf i] e by simp
  show "e \<in> {e. holds s e}" using a e wf_slot_not_null[OF wf i] by (simp add: holds_iff)
next
  fix e assume "e \<in> {e. holds s e}"
  then have nz: "slots (SparsePages s) (GetIndex e) \<noteq> k_NullIndex"
    and ee: "DenseToEntity s ! slots (SparsePages s) (GetIndex e) = e" by (simp_all add: holds_iff)
  show "e \<in> set (DenseToEntity s)" using wf_D(4)[OF wf nz] ee by (metis nth_mem)
qed

lemma wf_distinct_entities:
  assumes wf: "wf_SparseSet s"
  shows "distinct (map GetIndex (DenseToEntity s))"
proof -
  have "inj_on (\<lambda>i. GetIndex (DenseToEntity s ! i)) {..<length (DenseToEntity s)}"
    using wf_inj_on[OF wf] .
  then show ?thesis
    unfolding distinct_conv_nth inj_on_def by auto
qed

lemma GetWord_SetWord:
  "i < 4 \<Longrightarrow> j < 4 \<Longrightarrow> GetWord (SetWord m i w) j = (if j = i then w else GetWord m j)"
  by (cases m) auto

lemma Test_iff: "Test m c \<longleftrightarrow> c < 256 \<and> bit (GetWord m (c div 64)) (c mod 64)"
  by (auto simp: Test_def bit_iff_and_push_bit_not_eq_0)

lemma div_mod_64_eq: "(c :: nat) div 64 = b div 64 \<Longrightarrow> c mod 64 = b mod 64 \<Longrightarrow> c = b"
  by (metis div_mult_mod_eq)

lemma Test_Set: "Test (Set b m) c \<longleftrightarrow> (b < 256 \<and> c = b) \<or> Test m c"
proof (cases "b < 256")
  case False
  then show ?thesis by (simp add: Set_def)
next
  case True
  then have bd: "b div 64 < 4" by simp
  show ?thesis
  proof (cases "c < 256")
    case False
    then show ?thesis by (auto simp: Test_iff)
  next
    case c: True
    then have cd: "c div 64 < 4" by simp
    show ?thesis using True c div_mod_64_eq[of c b]
      by (auto simp: Test_iff Set_def GetWord_SetWord[OF bd cd] bit_simps)
  qed
qed

lemma Test_Reset: "Test (Reset b m) c \<longleftrightarrow> Test m c \<and> c \<noteq> b"
proof (cases "b < 256")
  case False
  then show ?thesis by (auto simp: Reset_def Test_iff)
next
  case True
  then have bd: "b div 64 < 4" by simp
  show ?thesis
  proof (cases "c < 256")
    case False
    then show ?thesis by (auto simp: Test_iff)
  next
    case c: True
    then have cd: "c div 64 < 4" by simp
    show ?thesis using True c div_mod_64_eq[of c b]
      by (auto simp: Test_iff Reset_def GetWord_SetWord[OF bd cd] bit_simps)
  qed
qed

lemma Test_ResetAll [simp]: "Test (ResetAll m) c = False"
  by (simp add: Test_iff ResetAll_def)

lemma Test_MakeMask_0 [simp]: "Test (MakeMask 0) c = False"
  by (simp add: Test_iff MakeMask_def)

lemma and_eq_iff_bits:
  "(a AND b = b) \<longleftrightarrow> (\<forall>n < 64. bit b n \<longrightarrow> bit a n)" for a b :: "64 word"
proof
  assume "a AND b = b"
  then have "\<And>n. bit (a AND b) n = bit b n" by simp
  then show "\<forall>n < 64. bit b n \<longrightarrow> bit a n" by (auto simp: bit_and_iff)
next
  assume h: "\<forall>n < 64. bit b n \<longrightarrow> bit a n"
  show "a AND b = b"
    by (rule bit_word_eqI) (use h in \<open>auto simp: bit_and_iff\<close>)
qed

lemma MaskContains_iff: "MaskContains m q \<longleftrightarrow> (\<forall>c. Test q c \<longrightarrow> Test m c)"
proof
  assume a: "MaskContains m q"
  show "\<forall>c. Test q c \<longrightarrow> Test m c"
  proof (intro allI impI)
    fix c assume t: "Test q c"
    then have c: "c < 256" and b: "bit (GetWord q (c div 64)) (c mod 64)" by (auto simp: Test_iff)
    have "c div 64 \<in> {0, 1, 2, 3}" using c by auto
    then have "GetWord m (c div 64) AND GetWord q (c div 64) = GetWord q (c div 64)"
      using a by (auto simp: MaskContains_def)
    then have "bit (GetWord m (c div 64)) (c mod 64)"
      using b by (simp add: and_eq_iff_bits)
    then show "Test m c" using c by (simp add: Test_iff)
  qed
next
  assume a: "\<forall>c. Test q c \<longrightarrow> Test m c"
  have "GetWord m i AND GetWord q i = GetWord q i" if i: "i < 4" for i
    unfolding and_eq_iff_bits
  proof (intro allI impI)
    fix n :: nat assume n: "n < 64" and b: "bit (GetWord q i) n"
    have "Test q (i * 64 + n)" using i n b by (simp add: Test_iff)
    then have "Test m (i * 64 + n)" using a by blast
    then show "bit (GetWord m i) n" using i n by (simp add: Test_iff)
  qed
  then show "MaskContains m q" by (simp add: MaskContains_def)
qed

lemma clear_lowest_bits:
  "bit (w AND NOT (push_bit b 1)) n \<longleftrightarrow> bit w n \<and> n \<noteq> b" for w :: "64 word"
  by (auto simp: bit_simps dest: bit_imp_le_length)

lemma word_bits_props:
  "sorted_wrt (<) (word_bits w) \<and> set (word_bits w) = {n. bit w n}"
proof (induction w rule: word_bits.induct)
  case (1 w)
  show ?case
  proof (cases "w = 0")
    case True
    then show ?thesis by (simp add: word_bits.simps[of 0])
  next
    case False
    define b where "b = ctzll w"
    define w' where "w' = w AND NOT (push_bit b 1)"
    have ih: "sorted_wrt (<) (word_bits w') \<and> set (word_bits w') = {n. bit w n \<and> n \<noteq> b}"
      using "1.IH"[OF False, of b] by (simp add: b_def w'_def clear_lowest_bits del: push_bit_of_1)
    have least: "bit w b" "\<And>k. k < b \<Longrightarrow> \<not> bit w k"
      using ctzll_least[OF False] by (auto simp: b_def)
    have wb: "word_bits w = b # word_bits w'"
      using False by (simp add: word_bits.simps[of w] b_def w'_def Let_def del: push_bit_of_1)
    have "\<forall>n \<in> set (word_bits w'). b < n"
      using ih least by (metis (mono_tags, lifting) linorder_neqE_nat mem_Collect_eq)
    then show ?thesis unfolding wb using ih least by auto
  qed
qed

lemma word_bits_eq: "word_bits w = filter (bit w) [0..<64]"
proof -
  have s1: "sorted (word_bits w)" "distinct (word_bits w)"
    using word_bits_props[of w] by (simp_all add: strict_sorted_iff)
  have "sorted_wrt (<) (filter (bit w) [0..<64])"
    by (rule sorted_wrt_filter) (rule sorted_wrt_upt)
  then have s2: "sorted (filter (bit w) [0..<64])" "distinct (filter (bit w) [0..<64])"
    unfolding strict_sorted_iff by blast+
  have "{n. bit w n} = {n. n < 64 \<and> bit w n}"
    using bit_imp_le_length[of w] by auto
  then have "set (word_bits w) = set (filter (bit w) [0..<64])"
    using word_bits_props[of w] by (simp only: set_filter set_upt) auto
  then show ?thesis using sorted_distinct_set_unique[OF s1 s2] by blast
qed

lemma filter_Test_segment:
  assumes "i < 4"
  shows "filter (Test m) (map (\<lambda>b. i * 64 + b) [0..<64])
       = map (\<lambda>b. i * 64 + b) (filter (bit (GetWord m i)) [0..<64])"
proof -
  have "filter (Test m) (map (\<lambda>b. i * 64 + b) [0..<64])
      = map (\<lambda>b. i * 64 + b) (filter (Test m \<circ> (\<lambda>b. i * 64 + b)) [0..<64])"
    by (simp add: filter_map)
  also have "filter (Test m \<circ> (\<lambda>b. i * 64 + b)) [0..<64] = filter (bit (GetWord m i)) [0..<64]"
    using assms by (intro filter_cong) (auto simp: Test_iff)
  finally show ?thesis .
qed

lemma upt_segment: "[a..<a + k] = map (\<lambda>b. a + b) [0..<k]" for a k :: nat
  using map_add_upt[of a k] by (simp add: add.commute)

lemma upt_segments:
  "concat (map (\<lambda>i. map (\<lambda>b. i * k + b) [0..<k]) [0..<n]) = [0..<n * k]" for k n :: nat
proof (induction n)
  case 0
  then show ?case by simp
next
  case (Suc n)
  have "concat (map (\<lambda>i. map (\<lambda>b. i * k + b) [0..<k]) [0..<Suc n])
      = [0..<n * k] @ map (\<lambda>b. n * k + b) [0..<k]"
    using Suc.IH by simp
  also have "\<dots> = [0..<n * k] @ [n * k..<n * k + k]"
    by (simp only: upt_segment)
  also have "\<dots> = [0..<n * k + k]"
    by (rule upt_add_eq_append[symmetric]) simp
  also have "n * k + k = Suc n * k" by simp
  finally show ?case .
qed

lemma upt_0_4: "[0..<4] = [0, 1, 2, 3::nat]"
  by (simp add: upt_rec)

lemma ForEachSetBit_eq: "ForEachSetBit m = filter (Test m) [0..<256]"
proof -
  have "[0..<256] = [0..<4 * (64::nat)]" by simp
  also have "\<dots> = concat (map (\<lambda>i. map (\<lambda>b. i * 64 + b) [0..<64]) [0..<4])"
    by (rule upt_segments[symmetric])
  finally have e: "[0..<256] = concat (map (\<lambda>i. map (\<lambda>b. i * 64 + b) [0..<64]) [0, 1, 2, 3])"
    unfolding upt_0_4 .
  have "filter (Test m) [0..<256]
      = concat (map (filter (Test m)) (map (\<lambda>i. map (\<lambda>b. i * 64 + b) [0..<64]) [0, 1, 2, 3]))"
    unfolding e by (rule filter_concat)
  also have "\<dots> = concat (map (\<lambda>i. filter (Test m) (map (\<lambda>b. i * 64 + b) [0..<64])) [0, 1, 2, 3])"
    by (simp only: map_map comp_def)
  also have "map (\<lambda>i. filter (Test m) (map (\<lambda>b. i * 64 + b) [0..<64])) [0, 1, 2, 3]
           = map (\<lambda>i. map (\<lambda>b. i * 64 + b) (word_bits (GetWord m i))) [0, 1, 2, 3]"
  proof (rule map_cong[OF refl])
    fix i :: nat assume "i \<in> set [0, 1, 2, 3]"
    then have "i < 4" by auto
    then show "filter (Test m) (map (\<lambda>b. i * 64 + b) [0..<64]) = map (\<lambda>b. i * 64 + b) (word_bits (GetWord m i))"
      unfolding word_bits_eq by (rule filter_Test_segment)
  qed
  finally show ?thesis unfolding ForEachSetBit_def by (rule sym)
qed



lemma Get_stored: "wf_SparseSet s \<Longrightarrow> holds s e \<Longrightarrow> Get s e = Some (stored s e)"
  by (simp add: Get_wf stored_def)

lemma TriggerEvent_Some:
  assumes "wf_SparseSet (ComponentStores w c)" "holds (ComponentStores w c) e"
  shows "TriggerEvent c e ev w = Some (w\<lparr>Calls := Calls w @ event_calls w c e ev (stored (ComponentStores w c) e)\<rparr>)"
  using Get_stored[OF assms]
  by (cases ev) (auto simp: TriggerEvent_def GetComponent_def GetStore_def event_calls_def observers_def
      registered_def split: option.splits)

lemma TriggerEvent_no_signals:
  "ComponentSignals w c = None \<Longrightarrow> TriggerEvent c e ev w = Some w"
  by (simp add: TriggerEvent_def)

lemma holds_Insert:
  assumes "wf_SparseSet s" "Insert e v s = Some s'"
  shows "wf_SparseSet s'" and "holds s' x \<longleftrightarrow> (if GetIndex x = GetIndex e then x = e else holds s x)"
    and "stored s' e = v"
proof -
  from Insert_wf[OF assms(1), of e v] assms(2)
  have wf': "wf_SparseSet s'" and ent: "entries s' = (entries s)(GetIndex e \<mapsto> (e, v))" by auto
  show "wf_SparseSet s'" by fact
  show "holds s' x \<longleftrightarrow> (if GetIndex x = GetIndex e then x = e else holds s x)"
    by (auto simp: holds_def ent)
  have "entries s' (GetIndex e) = Some (e, v)" by (simp add: ent)
  then show "stored s' e = v" by (simp add: entries_Some_iff stored_def)
qed

lemma holds_same_index:
  assumes "wf_SparseSet s" "holds s e" "holds s x" "GetIndex x = GetIndex e"
  shows "x = e"
  using assms by (auto simp: holds_iff)

lemma holds_Remove:
  assumes "wf_SparseSet s" "Remove e s = Some s'"
  shows "wf_SparseSet s'" and "holds s' x \<longleftrightarrow> holds s x \<and> x \<noteq> e"
proof -
  from Remove_wf[OF assms(1), of e] assms(2)
  have wf': "wf_SparseSet s'"
    and ent: "entries s' = (if holds s e then (entries s)(GetIndex e := None) else entries s)" by auto
  show "wf_SparseSet s'" by fact
  show "holds s' x \<longleftrightarrow> holds s x \<and> x \<noteq> e"
  proof (cases "holds s e")
    case True
    then show ?thesis using holds_same_index[OF assms(1) True, of x]
      by (auto simp: holds_def ent)
  next
    case False
    then show ?thesis by (auto simp: holds_def ent)
  qed
qed

lemma Remove_defined: "wf_SparseSet s \<Longrightarrow> \<exists>s'. Remove e s = Some s'"
  using Remove_wf by blast

lemma Insert_defined: "wf_SparseSet s \<Longrightarrow> \<exists>s'. Insert e v s = Some s'"
  using Insert_wf[of s e v] by blast

lemma length_resize [simp]: "length (resize xs n d) = n"
  by (simp add: resize_def)

lemma nth_resize: "k < n \<Longrightarrow> resize xs n d ! k = (if k < length xs then xs ! k else d)"
  by (auto simp: resize_def nth_append)

lemma install_store_props:
  "c < length (install_store c stores)"
  "install_store c stores ! c = Some c"
  "length stores \<le> length (install_store c stores)"
  "k \<noteq> c \<Longrightarrow> k < length stores \<Longrightarrow> install_store c stores ! k = stores ! k"
  "k \<noteq> c \<Longrightarrow> k < length (install_store c stores) \<Longrightarrow> \<not> k < length stores \<Longrightarrow> install_store c stores ! k = None"
  by (auto simp: install_store_def nth_resize)

lemma EnsureSignalStorage_fields [simp]:
  "StoresByID (EnsureSignalStorage c w) = StoresByID w"
  "ComponentStores (EnsureSignalStorage c w) = ComponentStores w"
  "ComponentSignals (EnsureSignalStorage c w) = ComponentSignals w"
  "EntitySignatures (EnsureSignalStorage c w) = EntitySignatures w"
  "EntityGenerations (EnsureSignalStorage c w) = EntityGenerations w"
  "FreeEntities (EnsureSignalStorage c w) = FreeEntities w"
  "Calls (EnsureSignalStorage c w) = Calls w"
  by (simp_all add: EnsureSignalStorage_def Let_def)

lemma EnsureSignalStorage_triggers:
  "c < length (OnRemovedTriggers (EnsureSignalStorage c w))"
  "OnRemovedTriggers (EnsureSignalStorage c w) ! c"
  "length (OnRemovedTriggers w) \<le> length (OnRemovedTriggers (EnsureSignalStorage c w))"
  "k < length (OnRemovedTriggers w) \<Longrightarrow> OnRemovedTriggers w ! k \<Longrightarrow> OnRemovedTriggers (EnsureSignalStorage c w) ! k"
  by (auto simp: EnsureSignalStorage_def Let_def nth_resize nth_list_update)

lemma AddComponent_effect:
  assumes wf: "wf_SparseSet (ComponentStores w c)"
    and idx: "unat (GetIndex e) < length (EntitySignatures w)"
  shows "\<exists>w' s'. AddComponent e c v w = Some w' \<and> Insert e v (ComponentStores w c) = Some s' \<and>
           ComponentStores w' = (ComponentStores w)(c := s') \<and>
           EntitySignatures w' = (EntitySignatures w)
              [unat (GetIndex e) := Set c (EntitySignatures w ! unat (GetIndex e))] \<and>
           EntityGenerations w' = EntityGenerations w \<and>
           FreeEntities w' = FreeEntities w \<and>
           ComponentSignals w' = ComponentSignals w \<and>
           StoresByID w' = install_store c (StoresByID w) \<and>
           OnRemovedTriggers w' = OnRemovedTriggers (EnsureSignalStorage c w) \<and>
           Calls w' = Calls w @ event_calls w c e Added v"
proof -
  obtain s' where ins: "Insert e v (ComponentStores w c) = Some s'"
    using Insert_defined[OF wf] by blast
  have wf': "wf_SparseSet s'" and h': "holds s' e" and st: "stored s' e = v"
    using holds_Insert[OF wf ins] by auto
  define w4 where "w4 = w\<lparr>ComponentStores := (ComponentStores w)(c := s'),
      EntitySignatures := (EntitySignatures w)[unat (GetIndex e) := Set c (EntitySignatures w ! unat (GetIndex e))],
      StoresByID := install_store c (StoresByID w)\<rparr>"
  define w5 where "w5 = EnsureSignalStorage c w4"
  have a: "AddComponent e c v w = TriggerEvent c e Added w5"
    using ins idx by (simp add: AddComponent_def Let_def GetStore_def install_store_def w5_def w4_def)
  have s5: "ComponentStores w5 c = s'" by (simp add: w5_def w4_def)
  have ec: "event_calls w5 c e Added v = event_calls w c e Added v"
    by (simp add: event_calls_def registered_def w5_def w4_def)
  have t: "TriggerEvent c e Added w5 = Some (w5\<lparr>Calls := Calls w5 @ event_calls w c e Added v\<rparr>)"
    using TriggerEvent_Some[of w5 c e Added] wf' h' st s5 ec by simp
  have tr: "OnRemovedTriggers w5 = OnRemovedTriggers (EnsureSignalStorage c w)"
    by (simp add: w5_def w4_def EnsureSignalStorage_def Let_def)
  show ?thesis
    unfolding a t using ins tr by (simp add: w5_def) (simp add: w4_def)
qed

lemma IsAlive_index: "IsAlive w e = Some True \<Longrightarrow> unat (GetIndex e) < length (EntitySignatures w)"
  by (auto simp: IsAlive_def Let_def split: if_splits)

lemma Contains_holds: "wf_SparseSet s \<Longrightarrow> Contains s e = Some True \<longleftrightarrow> holds s e"
  by (simp add: Contains_wf)

lemma Insert_Size_present:
  assumes "wf_SparseSet s" "holds s e" "Insert e v s = Some s'"
  shows "Size s' = Size s"
proof -
  have "slots (SparsePages s) (GetIndex e) \<noteq> k_NullIndex" using assms(2) by (simp add: holds_iff)
  from Insert_overwrite[OF assms(1) this, of v] assms(3) show ?thesis by (auto simp: Size_def)
qed

lemma world1_store: "ComponentStores world1 c = empty_SparseSet"
  by (simp add: world1_def empty_World_def)

lemma Set_out_of_range: "256 \<le> c \<Longrightarrow> Set c m = m"
  by (simp add: Set_def)

lemma HasComponent_out_of_range: "256 \<le> c \<Longrightarrow> \<not> HasComponent w e c"
  by (simp add: HasComponent_def Test_iff Let_def)

lemma AddComponent_large_id:
  assumes "256 \<le> c"
    and "IsAlive w e = Some True"
    and "wf_SparseSet (GetStore w c)"
  shows "\<exists>w'. AddComponent e c v w = Some w' \<and>
           Contains (GetStore w' c) e = Some True \<and>
           GetComponent w' e c = Some v \<and>
           EntitySignatures w' = EntitySignatures w \<and>
           \<not> HasComponent w' e c"
proof -
  have wf: "wf_SparseSet (ComponentStores w c)" using assms(3) by (simp add: GetStore_def)
  obtain w' s' where a: "AddComponent e c v w = Some w'"
    and ins: "Insert e v (ComponentStores w c) = Some s'"
    and st: "ComponentStores w' = (ComponentStores w)(c := s')"
    and sg: "EntitySignatures w' = (EntitySignatures w)
              [unat (GetIndex e) := Set c (EntitySignatures w ! unat (GetIndex e))]"
    using AddComponent_effect[OF wf IsAlive_index[OF assms(2)], of v] by blast
  have hi: "wf_SparseSet s'" "holds s' e" "stored s' e = v"
    using holds_Insert[OF wf ins] by auto
  have g: "GetComponent w' e c = Some v"
    using hi by (simp add: GetComponent_def GetStore_def st Get_stored)
  have ct: "Contains (GetStore w' c) e = Some True"
    using hi by (simp add: GetStore_def st Contains_wf)
  have sg': "EntitySignatures w' = EntitySignatures w"
    unfolding sg by (simp add: Set_out_of_range[OF assms(1)])
  show ?thesis using a g ct sg' HasComponent_out_of_range[OF assms(1)] by blast
qed

lemma world1_alive: "IsAlive world1 0 = Some True"
  by (simp add: IsAlive_def world1_def empty_World_def GetIndex_def GetGeneration_def)

lemma ents_eval:
  "GetIndex 0 = 0" "GetGeneration 0 = 0" "GetIndex 0x100000000 = 0" "GetGeneration 0x100000000 = 1"
  "MakeEntityID 1 0 = 0x100000000" "MakeEntityID 0 0 = 0"
  by (simp_all add: GetIndex_def GetGeneration_def MakeEntityID_def)

lemma ForEachSetBit_empty: "ForEachSetBit (MakeMask 0) = []"
  by (simp add: ForEachSetBit_def MakeMask_def word_bits.simps)

lemma stale_world_steps:
  "CreateEntity (empty_World :: nat World) = Some (0, world1)"
  "DestroyEntity 0 world1 = Some (world_reused\<lparr>FreeEntities := [0x100000000]\<rparr>)"
  "CreateEntity (world_reused\<lparr>FreeEntities := [0x100000000]\<rparr>) = Some (0x100000000, world_reused)"
  by (simp_all add: CreateEntity_def DestroyEntity_def IsAlive_def ents_eval empty_World_def
      ForEachSetBit_empty world1_def world_reused_def)

lemma stale_world_eq: "stale_world = AddComponent 0x100000000 0 42 world_reused"
  by (simp add: stale_world_def stale_world_steps)

lemma stale_world_props:
  "\<exists>w. stale_world = Some w \<and> IsAlive w 0 = Some False \<and> IsAlive w 0x100000000 = Some True \<and>
       HasComponent w 0 0 \<and> Contains (GetStore w 0) 0 = Some False \<and>
       Contains (GetStore w 0) 0x100000000 = Some True"
proof -
  have wf: "wf_SparseSet (ComponentStores world_reused 0)"
    by (simp add: world_reused_def empty_World_def wf_empty)
  have idx: "unat (GetIndex 0x100000000) < length (EntitySignatures world_reused)"
    by (simp add: ents_eval world_reused_def)
  obtain w s' where a: "AddComponent 0x100000000 0 42 world_reused = Some w"
    and ins: "Insert 0x100000000 42 (ComponentStores world_reused 0) = Some s'"
    and st: "ComponentStores w = (ComponentStores world_reused)(0 := s')"
    and sg: "EntitySignatures w = (EntitySignatures world_reused)
              [unat (GetIndex 0x100000000) := Set 0 (EntitySignatures world_reused ! unat (GetIndex 0x100000000))]"
    and gn: "EntityGenerations w = EntityGenerations world_reused"
    using AddComponent_effect[OF wf idx, of 42] by blast
  have hi: "wf_SparseSet s'" "\<And>x. holds s' x \<longleftrightarrow> (if GetIndex x = GetIndex 0x100000000 then x = 0x100000000 else holds (ComponentStores world_reused 0) x)"
    using holds_Insert[OF wf ins] by auto
  have sg': "EntitySignatures w = [Set 0 (ResetAll (MakeMask 0))]"
    unfolding sg by (simp add: ents_eval world_reused_def)
  have gn': "EntityGenerations w = [1]" unfolding gn by (simp add: world_reused_def)
  have "IsAlive w 0 = Some False" "IsAlive w 0x100000000 = Some True"
    by (simp_all add: IsAlive_def ents_eval sg' gn')
  moreover have "HasComponent w 0 0"
    by (simp add: HasComponent_def ents_eval sg' Test_Set)
  moreover have "Contains (GetStore w 0) 0 = Some False" "Contains (GetStore w 0) 0x100000000 = Some True"
    using hi by (simp_all add: GetStore_def st Contains_wf ents_eval)
  ultimately show ?thesis using a stale_world_eq by metis
qed

lemma CreateEntityWithID_max_index_empty:
  "CreateEntityWithID 0xFFFFFFFF (empty_World :: nat World) = None"
  by (simp add: CreateEntityWithID_def GetIndex_def GetGeneration_def IsAlive_def empty_World_def resize_def)

lemma CreateEntityWithID_max_index_world1:
  "CreateEntityWithID 0xFFFFFFFF world1 = None"
  by (simp add: CreateEntityWithID_def GetIndex_def GetGeneration_def IsAlive_def empty_World_def
      world1_def resize_def)

lemma CreateEntityWithID_grows:
  assumes L: "length (EntitySignatures w) \<le> unat (GetIndex e)"
    and G: "length (EntityGenerations w) \<le> length (EntitySignatures w)"
    and nmax: "GetIndex e \<noteq> - 1"
  shows "\<exists>w'. CreateEntityWithID e w = Some (e, w') \<and>
           length (EntitySignatures w') = unat (GetIndex e) + 1 \<and>
           length (EntityGenerations w') = unat (GetIndex e) + 1 \<and>
           IsAlive w' e = Some True \<and>
           (\<forall>k. length (EntitySignatures w) \<le> unat k \<and> k < GetIndex e \<longrightarrow>
                 EntityGenerations w' ! unat k = 0 \<and> IsAlive w' (MakeEntityID 0 k) = Some True) \<and>
           set (FreeEntities w') \<subseteq> set (FreeEntities w)"
proof -
  define i where "i = unat (GetIndex e)"
  define w1 where "w1 = w\<lparr>EntitySignatures := resize (EntitySignatures w) (i + 1) (MakeMask 0),
                      EntityGenerations := resize (EntityGenerations w) (i + 1) 0\<rparr>"
  have s: "unat (GetIndex e + 1) = i + 1" using unat_index_succ[OF nmax] by (simp add: i_def)
  have Li: "length (EntitySignatures w) \<le> i" using L by (simp add: i_def)
  have g1: "\<And>k. length (EntitySignatures w) \<le> k \<Longrightarrow> k \<le> i \<Longrightarrow> EntityGenerations w1 ! k = 0"
    using G by (simp add: w1_def nth_resize)
  have al1: "IsAlive w1 e = Some (GetGeneration e = 0)"
    using g1[of i] Li by (auto simp: IsAlive_def Let_def w1_def i_def[symmetric])
  have inter: "\<And>w'. length (EntitySignatures w') = i + 1 \<Longrightarrow> length (EntityGenerations w') = i + 1 \<Longrightarrow>
        (\<And>k. length (EntitySignatures w) \<le> k \<Longrightarrow> k < i \<Longrightarrow> EntityGenerations w' ! k = 0) \<Longrightarrow>
        (\<forall>k. length (EntitySignatures w) \<le> unat k \<and> k < GetIndex e \<longrightarrow>
                 EntityGenerations w' ! unat k = 0 \<and> IsAlive w' (MakeEntityID 0 k) = Some True)"
    by (auto simp: IsAlive_def Let_def GetIndex_MakeEntityID GetGeneration_MakeEntityID
        word_less_nat_alt i_def)
  show ?thesis
  proof (cases "GetGeneration e = 0")
    case True
    have c: "CreateEntityWithID e w = Some (e, w1)"
      using L al1 True unfolding CreateEntityWithID_def Let_def s i_def[symmetric] w1_def[symmetric]
      by simp
    have "IsAlive w1 e = Some True" using al1 True by simp
    then show ?thesis
      using c inter[of w1] g1 by (simp add: w1_def i_def[symmetric])
  next
    case False
    define w2 where "w2 = w1\<lparr>FreeEntities := filter (\<lambda>freed. GetIndex freed \<noteq> GetIndex e) (FreeEntities w1),
                 EntityGenerations := (EntityGenerations w1)[i := GetGeneration e],
                 EntitySignatures := (EntitySignatures w1)[i := ResetAll (EntitySignatures w1 ! i)]\<rparr>"
    have c: "CreateEntityWithID e w = Some (e, w2)"
      using L al1 False
      unfolding CreateEntityWithID_def Let_def s i_def[symmetric] w1_def[symmetric] w2_def
      by (simp add: w1_def)
    have l2: "length (EntitySignatures w2) = i + 1" "length (EntityGenerations w2) = i + 1"
      by (simp_all add: w2_def w1_def)
    have a2: "IsAlive w2 e = Some True"
      by (simp add: IsAlive_def Let_def i_def[symmetric] w2_def w1_def)
    have g2: "\<And>k. length (EntitySignatures w) \<le> k \<Longrightarrow> k < i \<Longrightarrow> EntityGenerations w2 ! k = 0"
      using g1 by (simp add: w2_def)
    have f2: "set (FreeEntities w2) \<subseteq> set (FreeEntities w)" by (auto simp: w2_def w1_def)
    show ?thesis using c l2 a2 inter[OF l2 g2] f2 by (simp add: i_def[symmetric])
  qed
qed

lemma OnEvent_fields [simp]:
  "StoresByID (OnEvent c ev cb w) = StoresByID w"
  "ComponentStores (OnEvent c ev cb w) = ComponentStores w"
  "EntitySignatures (OnEvent c ev cb w) = EntitySignatures w"
  "EntityGenerations (OnEvent c ev cb w) = EntityGenerations w"
  "FreeEntities (OnEvent c ev cb w) = FreeEntities w"
  "Calls (OnEvent c ev cb w) = Calls w"
  "OnRemovedTriggers (OnEvent c ev cb w) = OnRemovedTriggers (EnsureSignalStorage c w)"
  by (simp_all add: OnEvent_def GetSignals_def Let_def split: option.splits prod.splits)

lemma registered_OnEvent:
  "registered (OnEvent c ev cb w) c' ev' =
     (if c' = c \<and> ev' = ev then registered w c ev @ [cb] else registered w c' ev')"
  by (cases ev; cases ev')
     (auto simp: registered_def OnEvent_def GetSignals_def Let_def observers_def
       split: option.splits prod.splits)

lemma Insert_Size_absent:
  assumes "wf_SparseSet s" "slots (SparsePages s) (GetIndex e) = k_NullIndex" "Insert e v s = Some s'"
  shows "Size s' = Size s + 1"
  using Insert_push[OF assms(1,2), of v] assms(3) by (auto simp: Size_def)

lemma world_component_props:
  "IsAlive world_component 0 = Some True"
  "wf_SparseSet (GetStore world_component 0)"
  "Contains (GetStore world_component 0) 0 = Some True"
  "Size (GetStore world_component 0) = 1"
  "Calls world_component = [Call Added 0 1 0 5]"
  "registered world_component 0 Added = [1]"
  "HasComponent world_component 0 0"
proof -
  have wf: "wf_SparseSet (ComponentStores world_observed 0)"
    by (simp add: world_observed_def world1_store wf_empty)
  have idx: "unat (GetIndex 0) < length (EntitySignatures world_observed)"
    by (simp add: ents_eval world_observed_def world1_def)
  obtain w s' where a: "AddComponent 0 0 5 world_observed = Some w"
    and ins: "Insert 0 5 (ComponentStores world_observed 0) = Some s'"
    and st: "ComponentStores w = (ComponentStores world_observed)(0 := s')"
    and sg: "EntitySignatures w = (EntitySignatures world_observed)
              [unat (GetIndex 0) := Set 0 (EntitySignatures world_observed ! unat (GetIndex 0))]"
    and gn: "EntityGenerations w = EntityGenerations world_observed"
    and cs: "ComponentSignals w = ComponentSignals world_observed"
    and calls: "Calls w = Calls world_observed @ event_calls world_observed 0 0 Added 5"
    using AddComponent_effect[OF wf idx, of 5] by blast
  have w: "world_component = w" by (simp add: world_component_def a)
  have hi: "wf_SparseSet s'" "holds s' 0"
    using holds_Insert[OF wf ins] by auto
  have reg0: "registered world_observed 0 Added = [1]"
    by (simp add: world_observed_def registered_OnEvent) (simp add: registered_def world1_def empty_World_def)
  show "IsAlive world_component 0 = Some True"
    by (simp add: w IsAlive_def ents_eval sg gn world_observed_def world1_def)
  show "wf_SparseSet (GetStore world_component 0)" using hi by (simp add: w GetStore_def st)
  show "Contains (GetStore world_component 0) 0 = Some True"
    using hi by (simp add: w GetStore_def st Contains_wf)
  have "slots (SparsePages (ComponentStores world_observed 0)) (GetIndex 0) = k_NullIndex"
    by (simp add: world_observed_def world1_store empty_SparseSet_def slots_def read_slot_def)
  from Insert_Size_absent[OF wf this ins]
  show "Size (GetStore world_component 0) = 1"
    by (simp add: w GetStore_def st world_observed_def world1_store Size_def empty_SparseSet_def)
  show "Calls world_component = [Call Added 0 1 0 5]"
    by (simp add: w calls event_calls_def reg0) (simp add: world_observed_def world1_def empty_World_def)
  show "registered world_component 0 Added = [1]"
    using reg0 by (simp add: w registered_def cs)
  show "HasComponent world_component 0 0"
    by (simp add: w HasComponent_def ents_eval sg world_observed_def world1_def Test_Set)
qed


lemma world_inv_D:
  assumes "world_inv w"
  shows "length (EntityGenerations w) = length (EntitySignatures w)"
    and "\<And>c. wf_SparseSet (ComponentStores w c)"
    and "\<And>c e. holds (ComponentStores w c) e \<Longrightarrow> unat (GetIndex e) < length (EntitySignatures w)"
    and "\<And>c e. holds (ComponentStores w c) e \<Longrightarrow> Test (EntitySignatures w ! unat (GetIndex e)) c"
    and "\<And>c e. holds (ComponentStores w c) e \<Longrightarrow> EntityGenerations w ! unat (GetIndex e) = GetGeneration e"
    and "\<And>c index. unat index < length (EntitySignatures w) \<Longrightarrow> Test (EntitySignatures w ! unat index) c \<Longrightarrow>
          holds (ComponentStores w c) (MakeEntityID (EntityGenerations w ! unat index) index)"
    and "\<And>c (index :: 32 word). unat index < length (EntitySignatures w) \<Longrightarrow> Test (EntitySignatures w ! unat index) c \<Longrightarrow>
          c < length (StoresByID w) \<and> StoresByID w ! c = Some c \<and>
          c < length (OnRemovedTriggers w) \<and> OnRemovedTriggers w ! c"
    and "\<And>f. f \<in> set (FreeEntities w) \<Longrightarrow> unat (GetIndex f) < length (EntityGenerations w)"
  using assms unfolding world_inv_def by blast+

lemma IsAlive_iff:
  "IsAlive w e = Some True \<longleftrightarrow>
     unat (GetIndex e) < length (EntitySignatures w) \<and> unat (GetIndex e) < length (EntityGenerations w) \<and>
     EntityGenerations w ! unat (GetIndex e) = GetGeneration e"
  by (auto simp: IsAlive_def Let_def)

lemma alive_holds_iff:
  assumes inv: "world_inv w" and al: "IsAlive w e = Some True"
  shows "holds (ComponentStores w c) e \<longleftrightarrow> Test (EntitySignatures w ! unat (GetIndex e)) c"
proof
  assume "holds (ComponentStores w c) e"
  then show "Test (EntitySignatures w ! unat (GetIndex e)) c" using world_inv_D(4)[OF inv] by blast
next
  assume t: "Test (EntitySignatures w ! unat (GetIndex e)) c"
  have i: "unat (GetIndex e) < length (EntitySignatures w)"
    and g: "EntityGenerations w ! unat (GetIndex e) = GetGeneration e"
    using al by (auto simp: IsAlive_iff)
  from world_inv_D(6)[OF inv i t] show "holds (ComponentStores w c) e"
    by (simp add: g MakeEntityID_parts)
qed

lemma holds_alive:
  assumes inv: "world_inv w" and h: "holds (ComponentStores w c) e"
  shows "IsAlive w e = Some True"
  using world_inv_D(3,5)[OF inv h] world_inv_D(1)[OF inv] by (simp add: IsAlive_iff)

lemma destroy_bit_effect:
  assumes "c < length (StoresByID w)" "StoresByID w ! c = Some c"
    and "c < length (OnRemovedTriggers w)" "OnRemovedTriggers w ! c"
    and wf: "wf_SparseSet (ComponentStores w c)" and h: "holds (ComponentStores w c) e"
  shows "\<exists>s'. Remove e (ComponentStores w c) = Some s' \<and>
           destroy_bit e c w = Some (w\<lparr>ComponentStores := (ComponentStores w)(c := s'),
              Calls := Calls w @ event_calls w c e Removed (stored (ComponentStores w c) e)\<rparr>)"
proof -
  obtain s' where r: "Remove e (ComponentStores w c) = Some s'" using Remove_defined[OF wf] by blast
  show ?thesis
    using assms(1-4) r by (simp add: destroy_bit_def TriggerEvent_Some[OF wf h])
qed

lemma destroy_fold:
  assumes "distinct cs"
    and "\<forall>c \<in> set cs. c < length (StoresByID w) \<and> StoresByID w ! c = Some c \<and>
           c < length (OnRemovedTriggers w) \<and> OnRemovedTriggers w ! c \<and>
           wf_SparseSet (ComponentStores w c) \<and> holds (ComponentStores w c) e"
  shows "\<exists>w'. fold_option (destroy_bit e) cs w = Some w' \<and>
           w' = w\<lparr>ComponentStores := ComponentStores w', Calls := Calls w'\<rparr> \<and>
           Calls w' = Calls w @ concat (map (\<lambda>c. event_calls w c e Removed (stored (ComponentStores w c) e)) cs) \<and>
           (\<forall>c. c \<notin> set cs \<longrightarrow> ComponentStores w' c = ComponentStores w c) \<and>
           (\<forall>c \<in> set cs. Remove e (ComponentStores w c) = Some (ComponentStores w' c))"
  using assms
proof (induction cs arbitrary: w)
  case Nil
  then show ?case by simp
next
  case (Cons c cs)
  have pc: "c < length (StoresByID w)" "StoresByID w ! c = Some c"
    "c < length (OnRemovedTriggers w)" "OnRemovedTriggers w ! c"
    "wf_SparseSet (ComponentStores w c)" "holds (ComponentStores w c) e"
    using Cons.prems(2) by auto
  obtain s' where r: "Remove e (ComponentStores w c) = Some s'"
    and d: "destroy_bit e c w = Some (w\<lparr>ComponentStores := (ComponentStores w)(c := s'),
              Calls := Calls w @ event_calls w c e Removed (stored (ComponentStores w c) e)\<rparr>)"
    using destroy_bit_effect[OF pc] by blast
  define w1 where "w1 = w\<lparr>ComponentStores := (ComponentStores w)(c := s'),
              Calls := Calls w @ event_calls w c e Removed (stored (ComponentStores w c) e)\<rparr>"
  have cn: "c \<notin> set cs" and dc: "distinct cs" using Cons.prems(1) by auto
  have f1: "StoresByID w1 = StoresByID w" "OnRemovedTriggers w1 = OnRemovedTriggers w"
    "ComponentSignals w1 = ComponentSignals w"
    "\<And>k. k \<noteq> c \<Longrightarrow> ComponentStores w1 k = ComponentStores w k"
    "ComponentStores w1 c = s'"
    "Calls w1 = Calls w @ event_calls w c e Removed (stored (ComponentStores w c) e)"
    by (simp_all add: w1_def)
  have p1: "\<forall>k \<in> set cs. k < length (StoresByID w1) \<and> StoresByID w1 ! k = Some k \<and>
           k < length (OnRemovedTriggers w1) \<and> OnRemovedTriggers w1 ! k \<and>
           wf_SparseSet (ComponentStores w1 k) \<and> holds (ComponentStores w1 k) e"
  proof (intro ballI)
    fix k assume k: "k \<in> set cs"
    then have kc: "k \<noteq> c" using cn by auto
    show "k < length (StoresByID w1) \<and> StoresByID w1 ! k = Some k \<and>
           k < length (OnRemovedTriggers w1) \<and> OnRemovedTriggers w1 ! k \<and>
           wf_SparseSet (ComponentStores w1 k) \<and> holds (ComponentStores w1 k) e"
      using Cons.prems(2) k by (simp add: f1(1,2) f1(4)[OF kc])
  qed
  obtain w' where fo: "fold_option (destroy_bit e) cs w1 = Some w'"
    and eq: "w' = w1\<lparr>ComponentStores := ComponentStores w', Calls := Calls w'\<rparr>"
    and calls: "Calls w' = Calls w1 @ concat (map (\<lambda>c. event_calls w1 c e Removed (stored (ComponentStores w1 c) e)) cs)"
    and oth: "\<forall>k. k \<notin> set cs \<longrightarrow> ComponentStores w' k = ComponentStores w1 k"
    and rem: "\<forall>k \<in> set cs. Remove e (ComponentStores w1 k) = Some (ComponentStores w' k)"
    using Cons.IH[OF dc p1] by blast
  have ec: "\<And>k v. event_calls w1 k e Removed v = event_calls w k e Removed v"
    by (simp add: event_calls_def registered_def f1(3))
  have m: "map (\<lambda>c. event_calls w1 c e Removed (stored (ComponentStores w1 c) e)) cs
         = map (\<lambda>c. event_calls w c e Removed (stored (ComponentStores w c) e)) cs"
  proof (rule map_cong[OF refl])
    fix k assume "k \<in> set cs"
    then have kc: "k \<noteq> c" using cn by auto
    show "event_calls w1 k e Removed (stored (ComponentStores w1 k) e)
        = event_calls w k e Removed (stored (ComponentStores w k) e)"
      by (simp add: ec f1(4)[OF kc])
  qed
  have a: "fold_option (destroy_bit e) (c # cs) w = Some w'"
    using d fo by (simp add: w1_def)
  have b: "w' = w\<lparr>ComponentStores := ComponentStores w', Calls := Calls w'\<rparr>"
    by (subst eq) (simp add: w1_def)
  have c1: "Calls w' = Calls w @ concat (map (\<lambda>c. event_calls w c e Removed (stored (ComponentStores w c) e)) (c # cs))"
    unfolding calls m by (simp add: f1(6))
  have d1: "\<forall>k. k \<notin> set (c # cs) \<longrightarrow> ComponentStores w' k = ComponentStores w k"
  proof (intro allI impI)
    fix k assume "k \<notin> set (c # cs)"
    then have kc: "k \<noteq> c" and "k \<notin> set cs" by auto
    then show "ComponentStores w' k = ComponentStores w k" using oth by (simp add: f1(4)[OF kc])
  qed
  have e1: "\<forall>k \<in> set (c # cs). Remove e (ComponentStores w k) = Some (ComponentStores w' k)"
  proof (intro ballI)
    fix k assume k: "k \<in> set (c # cs)"
    show "Remove e (ComponentStores w k) = Some (ComponentStores w' k)"
    proof (cases "k = c")
      case True
      then show ?thesis using oth cn r by (simp add: f1(5))
    next
      case False
      then have "k \<in> set cs" using k by auto
      then have "Remove e (ComponentStores w1 k) = Some (ComponentStores w' k)" using rem by blast
      then show ?thesis by (simp add: f1(4)[OF False])
    qed
  qed
  show ?case using a b c1 d1 e1 by blast
qed

lemma ForEachSetBit_props:
  "distinct (ForEachSetBit m)" "set (ForEachSetBit m) = {c. Test m c}"
proof -
  show "distinct (ForEachSetBit m)" unfolding ForEachSetBit_eq by (rule distinct_filter) (rule distinct_upt)
  have "\<And>c. Test m c \<Longrightarrow> c < 256" by (simp add: Test_iff)
  then show "set (ForEachSetBit m) = {c. Test m c}"
    unfolding ForEachSetBit_eq by (simp only: set_filter set_upt) auto
qed

lemma DestroyEntity_not_alive:
  "IsAlive w e = Some False \<Longrightarrow> DestroyEntity e w = Some w"
  by (simp add: DestroyEntity_def)

lemma DestroyEntity_alive:
  assumes inv: "world_inv w" and al: "IsAlive w e = Some True"
  defines "i \<equiv> unat (GetIndex e)"
  defines "sig \<equiv> EntitySignatures w ! unat (GetIndex e)"
  shows "\<exists>w'. DestroyEntity e w = Some w' \<and>
     w' = w\<lparr>ComponentStores := ComponentStores w', Calls := Calls w',
            EntitySignatures := (EntitySignatures w)[i := ResetAll sig],
            EntityGenerations := (EntityGenerations w)[i := EntityGenerations w ! i + 1],
            FreeEntities := FreeEntities w @ [MakeEntityID (EntityGenerations w ! i + 1) (GetIndex e)]\<rparr> \<and>
     Calls w' = Calls w @ concat (map (\<lambda>c. event_calls w c e Removed (stored (ComponentStores w c) e))
                                   (filter (Test sig) [0..<256])) \<and>
     (\<forall>c. \<not> Test sig c \<longrightarrow> ComponentStores w' c = ComponentStores w c) \<and>
     (\<forall>c. Test sig c \<longrightarrow> Remove e (ComponentStores w c) = Some (ComponentStores w' c))"
proof -
  have il: "i < length (EntitySignatures w)" "i < length (EntityGenerations w)"
    using al by (auto simp: IsAlive_iff i_def)
  have p: "\<forall>c \<in> set (ForEachSetBit sig). c < length (StoresByID w) \<and> StoresByID w ! c = Some c \<and>
           c < length (OnRemovedTriggers w) \<and> OnRemovedTriggers w ! c \<and>
           wf_SparseSet (ComponentStores w c) \<and> holds (ComponentStores w c) e"
  proof (intro ballI)
    fix c assume "c \<in> set (ForEachSetBit sig)"
    then have t: "Test (EntitySignatures w ! unat (GetIndex e)) c"
      by (simp add: ForEachSetBit_props sig_def)
    have il': "unat (GetIndex e) < length (EntitySignatures w)" using il by (simp add: i_def)
    show "c < length (StoresByID w) \<and> StoresByID w ! c = Some c \<and>
           c < length (OnRemovedTriggers w) \<and> OnRemovedTriggers w ! c \<and>
           wf_SparseSet (ComponentStores w c) \<and> holds (ComponentStores w c) e"
      using world_inv_D(7)[OF inv il' t] world_inv_D(2)[OF inv] alive_holds_iff[OF inv al] t by blast
  qed
  obtain w1 where fo: "fold_option (destroy_bit e) (ForEachSetBit sig) w = Some w1"
    and eq: "w1 = w\<lparr>ComponentStores := ComponentStores w1, Calls := Calls w1\<rparr>"
    and calls: "Calls w1 = Calls w @ concat (map (\<lambda>c. event_calls w c e Removed (stored (ComponentStores w c) e)) (ForEachSetBit sig))"
    and oth: "\<forall>c. c \<notin> set (ForEachSetBit sig) \<longrightarrow> ComponentStores w1 c = ComponentStores w c"
    and rem: "\<forall>c \<in> set (ForEachSetBit sig). Remove e (ComponentStores w c) = Some (ComponentStores w1 c)"
    using destroy_fold[OF ForEachSetBit_props(1) p] by blast
  have f1: "EntitySignatures w1 = EntitySignatures w" "EntityGenerations w1 = EntityGenerations w"
    "FreeEntities w1 = FreeEntities w" "StoresByID w1 = StoresByID w"
    "ComponentSignals w1 = ComponentSignals w" "OnRemovedTriggers w1 = OnRemovedTriggers w"
    "World.more w1 = World.more w"
    by (subst eq, simp)+
  have sig_i: "sig = EntitySignatures w ! i" by (simp add: sig_def i_def)
  define w' where "w' = w1\<lparr>EntitySignatures := (EntitySignatures w1)[i := ResetAll (EntitySignatures w1 ! i)],
       EntityGenerations := (EntityGenerations w1)[i := EntityGenerations w1 ! i + 1],
       FreeEntities := FreeEntities w1 @ [MakeEntityID ((EntityGenerations w1)[i := EntityGenerations w1 ! i + 1] ! i) (GetIndex e)]\<rparr>"
  have d: "DestroyEntity e w = Some w'"
    using al fo by (simp add: DestroyEntity_def Let_def w'_def i_def sig_def)
  have s': "ComponentStores w' = ComponentStores w1" "Calls w' = Calls w1" by (simp_all add: w'_def)
  have e': "w' = w\<lparr>ComponentStores := ComponentStores w', Calls := Calls w',
            EntitySignatures := (EntitySignatures w)[i := ResetAll sig],
            EntityGenerations := (EntityGenerations w)[i := EntityGenerations w ! i + 1],
            FreeEntities := FreeEntities w @ [MakeEntityID (EntityGenerations w ! i + 1) (GetIndex e)]\<rparr>"
    by (rule World.equality) (simp_all add: w'_def f1 il sig_i)
  show ?thesis
    using d e' calls oth rem unfolding s' ForEachSetBit_props(2) ForEachSetBit_eq[symmetric]
    by (intro exI[of _ w']) simp
qed

lemma world_invI:
  assumes "length (EntityGenerations w) = length (EntitySignatures w)"
    and "\<And>c. wf_SparseSet (ComponentStores w c)"
    and "\<And>c e. holds (ComponentStores w c) e \<Longrightarrow>
        unat (GetIndex e) < length (EntitySignatures w) \<and>
        Test (EntitySignatures w ! unat (GetIndex e)) c \<and>
        EntityGenerations w ! unat (GetIndex e) = GetGeneration e"
    and "\<And>c (index :: 32 word). unat index < length (EntitySignatures w) \<Longrightarrow>
        Test (EntitySignatures w ! unat index) c \<Longrightarrow>
        holds (ComponentStores w c) (MakeEntityID (EntityGenerations w ! unat index) index) \<and>
        c < length (StoresByID w) \<and> StoresByID w ! c = Some c \<and>
        c < length (OnRemovedTriggers w) \<and> OnRemovedTriggers w ! c"
    and "\<And>f. f \<in> set (FreeEntities w) \<Longrightarrow> unat (GetIndex f) < length (EntityGenerations w)"
  shows "world_inv w"
  unfolding world_inv_def using assms by blast

lemma unat_index_neq: "(a :: 32 word) \<noteq> b \<Longrightarrow> unat a \<noteq> unat b"
  by (simp add: word_unat_eq_iff)

lemma DestroyEntity_inv:
  assumes inv: "world_inv w" and al: "IsAlive w e = Some True"
  shows "\<exists>w'. DestroyEntity e w = Some w' \<and> world_inv w' \<and>
           (\<forall>c. \<not> holds (ComponentStores w' c) e)"
proof -
  define i where "i = unat (GetIndex e)"
  define sig where "sig = EntitySignatures w ! unat (GetIndex e)"
  obtain w' where d: "DestroyEntity e w = Some w'"
    and eq: "w' = w\<lparr>ComponentStores := ComponentStores w', Calls := Calls w',
            EntitySignatures := (EntitySignatures w)[i := ResetAll sig],
            EntityGenerations := (EntityGenerations w)[i := EntityGenerations w ! i + 1],
            FreeEntities := FreeEntities w @ [MakeEntityID (EntityGenerations w ! i + 1) (GetIndex e)]\<rparr>"
    and oth: "\<forall>c. \<not> Test sig c \<longrightarrow> ComponentStores w' c = ComponentStores w c"
    and rem: "\<forall>c. Test sig c \<longrightarrow> Remove e (ComponentStores w c) = Some (ComponentStores w' c)"
    using DestroyEntity_alive[OF inv al] unfolding i_def sig_def by blast
  have il: "i < length (EntitySignatures w)" "i < length (EntityGenerations w)"
    and ge: "EntityGenerations w ! i = GetGeneration e"
    using al by (auto simp: IsAlive_iff i_def)
  have f: "EntitySignatures w' = (EntitySignatures w)[i := ResetAll sig]"
    "EntityGenerations w' = (EntityGenerations w)[i := EntityGenerations w ! i + 1]"
    "FreeEntities w' = FreeEntities w @ [MakeEntityID (EntityGenerations w ! i + 1) (GetIndex e)]"
    "StoresByID w' = StoresByID w" "OnRemovedTriggers w' = OnRemovedTriggers w"
    by (subst eq, simp)+
  have wf: "\<And>c. wf_SparseSet (ComponentStores w c)" using world_inv_D(2)[OF inv] .
  have st: "\<And>c x. wf_SparseSet (ComponentStores w' c) \<and>
       (holds (ComponentStores w' c) x \<longleftrightarrow> holds (ComponentStores w c) x \<and> x \<noteq> e)"
  proof -
    fix c x
    show "wf_SparseSet (ComponentStores w' c) \<and>
       (holds (ComponentStores w' c) x \<longleftrightarrow> holds (ComponentStores w c) x \<and> x \<noteq> e)"
    proof (cases "Test sig c")
      case True
      then have r: "Remove e (ComponentStores w c) = Some (ComponentStores w' c)" using rem by blast
      show ?thesis using holds_Remove[OF wf r] by blast
    next
      case False
      then have s: "ComponentStores w' c = ComponentStores w c" using oth by blast
      have "\<not> holds (ComponentStores w c) e"
        using alive_holds_iff[OF inv al, of c] False by (simp add: sig_def)
      then show ?thesis using wf[of c] by (auto simp: s)
    qed
  qed
  have not_i: "\<And>c x. holds (ComponentStores w' c) x \<Longrightarrow> unat (GetIndex x) \<noteq> i"
  proof
    fix c x assume h: "holds (ComponentStores w' c) x" and xi: "unat (GetIndex x) = i"
    have hx: "holds (ComponentStores w c) x" and xe: "x \<noteq> e" using h st by blast+
    have "GetIndex x = GetIndex e" using xi by (simp add: i_def word_unat_eq_iff)
    moreover have "GetGeneration x = GetGeneration e"
      using world_inv_D(5)[OF inv hx] ge xi by simp
    ultimately show False using xe entity_eqI by blast
  qed
  have inv': "world_inv w'"
  proof (rule world_invI)
    show "length (EntityGenerations w') = length (EntitySignatures w')"
      using world_inv_D(1)[OF inv] by (simp add: f)
    show "\<And>c. wf_SparseSet (ComponentStores w' c)" using st by blast
  next
    fix c x assume h: "holds (ComponentStores w' c) x"
    have hx: "holds (ComponentStores w c) x" using h st by blast
    show "unat (GetIndex x) < length (EntitySignatures w') \<and>
        Test (EntitySignatures w' ! unat (GetIndex x)) c \<and>
        EntityGenerations w' ! unat (GetIndex x) = GetGeneration x"
      using world_inv_D(3,4,5)[OF inv hx] not_i[OF h] by (simp add: f)
  next
    fix c and index :: "32 word"
    assume l: "unat index < length (EntitySignatures w')" and t: "Test (EntitySignatures w' ! unat index) c"
    have ni: "unat index \<noteq> i" using t il by (auto simp: f nth_list_update split: if_splits)
    have l0: "unat index < length (EntitySignatures w)" using l by (simp add: f)
    have t0: "Test (EntitySignatures w ! unat index) c" using t ni by (simp add: f)
    have ne: "MakeEntityID (EntityGenerations w ! unat index) index \<noteq> e"
      using ni by (auto simp: i_def GetIndex_MakeEntityID)
    show "holds (ComponentStores w' c) (MakeEntityID (EntityGenerations w' ! unat index) index) \<and>
        c < length (StoresByID w') \<and> StoresByID w' ! c = Some c \<and>
        c < length (OnRemovedTriggers w') \<and> OnRemovedTriggers w' ! c"
      using world_inv_D(6)[OF inv l0 t0] world_inv_D(7)[OF inv l0 t0] ne ni st by (simp add: f)
  next
    fix x assume "x \<in> set (FreeEntities w')"
    then show "unat (GetIndex x) < length (EntityGenerations w')"
      using world_inv_D(8)[OF inv] il by (auto simp: f GetIndex_MakeEntityID i_def)
  qed
  show ?thesis using d inv' st by blast
qed

lemma world_inv_cong:
  assumes "world_inv w"
    and "EntityGenerations w' = EntityGenerations w" "EntitySignatures w' = EntitySignatures w"
    and "ComponentStores w' = ComponentStores w" "StoresByID w' = StoresByID w"
    and "set (FreeEntities w') \<subseteq> set (FreeEntities w)"
    and "length (OnRemovedTriggers w) \<le> length (OnRemovedTriggers w')"
    and "\<And>k. k < length (OnRemovedTriggers w) \<Longrightarrow> OnRemovedTriggers w ! k \<Longrightarrow> OnRemovedTriggers w' ! k"
  shows "world_inv w'"
proof (rule world_invI)
  show "length (EntityGenerations w') = length (EntitySignatures w')"
    using world_inv_D(1)[OF assms(1)] by (simp add: assms)
  show "\<And>c. wf_SparseSet (ComponentStores w' c)" using world_inv_D(2)[OF assms(1)] by (simp add: assms)
next
  fix c e assume "holds (ComponentStores w' c) e"
  then have h: "holds (ComponentStores w c) e" by (simp add: assms)
  show "unat (GetIndex e) < length (EntitySignatures w') \<and>
        Test (EntitySignatures w' ! unat (GetIndex e)) c \<and>
        EntityGenerations w' ! unat (GetIndex e) = GetGeneration e"
    using world_inv_D(3,4,5)[OF assms(1) h] by (simp add: assms)
next
  fix c and index :: "32 word"
  assume "unat index < length (EntitySignatures w')" "Test (EntitySignatures w' ! unat index) c"
  then have l: "unat index < length (EntitySignatures w)" and t: "Test (EntitySignatures w ! unat index) c"
    by (simp_all add: assms)
  have a: "c < length (OnRemovedTriggers w)" "OnRemovedTriggers w ! c"
    using world_inv_D(7)[OF assms(1) l t] by auto
  have "c < length (OnRemovedTriggers w')" using a(1) assms(7) by simp
  moreover have "OnRemovedTriggers w' ! c" using assms(8)[OF a] .
  ultimately show "holds (ComponentStores w' c) (MakeEntityID (EntityGenerations w' ! unat index) index) \<and>
        c < length (StoresByID w') \<and> StoresByID w' ! c = Some c \<and>
        c < length (OnRemovedTriggers w') \<and> OnRemovedTriggers w' ! c"
    using world_inv_D(6)[OF assms(1) l t] world_inv_D(7)[OF assms(1) l t] by (simp add: assms)
next
  fix f assume "f \<in> set (FreeEntities w')"
  then have "f \<in> set (FreeEntities w)" using assms(6) by blast
  then show "unat (GetIndex f) < length (EntityGenerations w')"
    using world_inv_D(8)[OF assms(1)] by (simp add: assms)
qed

lemma holds_empty [simp]: "\<not> holds empty_SparseSet e"
  by (simp add: holds_def entries_empty)

lemma world_inv_empty: "world_inv empty_World"
  by (rule world_invI) (simp_all add: empty_World_def wf_empty)

lemma world_inv_OnEvent: "world_inv w \<Longrightarrow> world_inv (OnEvent c ev cb w)"
  by (rule world_inv_cong[of w]) (simp_all add: EnsureSignalStorage_triggers)

lemma TriggerEvent_inv:
  assumes "world_inv w" "TriggerEvent c e ev w = Some w'"
  shows "world_inv w'"
proof (cases "ComponentSignals w c")
  case None
  then show ?thesis using assms by (simp add: TriggerEvent_def)
next
  case (Some sg)
  then obtain cs where "w' = w\<lparr>Calls := cs\<rparr>"
    using assms(2) by (auto simp: TriggerEvent_def split: bind_splits)
  then show ?thesis using world_inv_cong[OF assms(1), of w'] by simp
qed

lemma world_inv_extend:
  assumes inv: "world_inv w"
  shows "world_inv (w\<lparr>EntitySignatures := EntitySignatures w @ replicate n (MakeMask 0),
                      EntityGenerations := EntityGenerations w @ replicate n 0\<rparr>)"
    (is "world_inv ?w'")
proof (rule world_invI)
  show "length (EntityGenerations ?w') = length (EntitySignatures ?w')"
    using world_inv_D(1)[OF inv] by simp
  show "\<And>c. wf_SparseSet (ComponentStores ?w' c)" using world_inv_D(2)[OF inv] by simp
next
  fix c e assume "holds (ComponentStores ?w' c) e"
  then have h: "holds (ComponentStores w c) e" by simp
  show "unat (GetIndex e) < length (EntitySignatures ?w') \<and>
        Test (EntitySignatures ?w' ! unat (GetIndex e)) c \<and>
        EntityGenerations ?w' ! unat (GetIndex e) = GetGeneration e"
    using world_inv_D(3,4,5)[OF inv h] world_inv_D(1)[OF inv] by (simp add: nth_append)
next
  fix c and index :: "32 word"
  assume l: "unat index < length (EntitySignatures ?w')" and t: "Test (EntitySignatures ?w' ! unat index) c"
  have l0: "unat index < length (EntitySignatures w)"
    using l t by (cases "unat index < length (EntitySignatures w)") (simp_all add: nth_append)
  have t0: "Test (EntitySignatures w ! unat index) c" using t l0 by (simp add: nth_append)
  show "holds (ComponentStores ?w' c) (MakeEntityID (EntityGenerations ?w' ! unat index) index) \<and>
        c < length (StoresByID ?w') \<and> StoresByID ?w' ! c = Some c \<and>
        c < length (OnRemovedTriggers ?w') \<and> OnRemovedTriggers ?w' ! c"
    using world_inv_D(6)[OF inv l0 t0] world_inv_D(7)[OF inv l0 t0] l0 world_inv_D(1)[OF inv]
    by (simp add: nth_append)
next
  fix f assume "f \<in> set (FreeEntities ?w')"
  then show "unat (GetIndex f) < length (EntityGenerations ?w')"
    using world_inv_D(8)[OF inv, of f] by simp
qed

lemma CreateEntity_inv:
  assumes inv: "world_inv w"
  shows "\<exists>e w'. CreateEntity w = Some (e, w') \<and> world_inv w'"
proof (cases "FreeEntities w = []")
  case True
  have "world_inv (w\<lparr>EntitySignatures := EntitySignatures w @ replicate 1 (MakeMask 0),
                      EntityGenerations := EntityGenerations w @ replicate 1 0\<rparr>)"
    by (rule world_inv_extend[OF inv])
  then show ?thesis using True by (simp add: CreateEntity_def)
next
  case False
  then have "last (FreeEntities w) \<in> set (FreeEntities w)" by simp
  then have l: "unat (GetIndex (last (FreeEntities w))) < length (EntityGenerations w)"
    using world_inv_D(8)[OF inv] by blast
  have "world_inv (w\<lparr>FreeEntities := butlast (FreeEntities w)\<rparr>)"
    by (rule world_inv_cong[OF inv]) (auto dest: in_set_butlastD)
  then show ?thesis using False l by (simp add: CreateEntity_def Let_def)
qed


lemma AddComponent_inv:
  assumes inv: "world_inv w" and al: "IsAlive w e = Some True" and c: "c < 256"
  shows "\<exists>w'. AddComponent e c v w = Some w' \<and> world_inv w' \<and>
           EntityGenerations w' = EntityGenerations w \<and>
           length (EntitySignatures w') = length (EntitySignatures w)"
proof -
  define i where "i = unat (GetIndex e)"
  define sig where "sig = EntitySignatures w ! i"
  have il: "i < length (EntitySignatures w)" and ge: "EntityGenerations w ! i = GetGeneration e"
    using al by (auto simp: IsAlive_iff i_def)
  have wf: "\<And>k. wf_SparseSet (ComponentStores w k)" using world_inv_D(2)[OF inv] .
  obtain w' s' where a: "AddComponent e c v w = Some w'"
    and ins: "Insert e v (ComponentStores w c) = Some s'"
    and st: "ComponentStores w' = (ComponentStores w)(c := s')"
    and sg: "EntitySignatures w' = (EntitySignatures w)[i := Set c sig]"
    and gn: "EntityGenerations w' = EntityGenerations w"
    and fr: "FreeEntities w' = FreeEntities w"
    and sb: "StoresByID w' = install_store c (StoresByID w)"
    and tr: "OnRemovedTriggers w' = OnRemovedTriggers (EnsureSignalStorage c w)"
    using AddComponent_effect[OF wf[of c] il[unfolded i_def], of v] unfolding i_def sig_def by blast
  have hs: "wf_SparseSet s'"
    "\<And>x. holds s' x \<longleftrightarrow> (if GetIndex x = GetIndex e then x = e else holds (ComponentStores w c) x)"
    using holds_Insert[OF wf ins] by auto
  have idx_eq: "\<And>x. unat (GetIndex x) = i \<longleftrightarrow> GetIndex x = GetIndex e"
    by (auto simp: i_def word_unat_eq_iff)
  have inv': "world_inv w'"
  proof (rule world_invI)
    show "length (EntityGenerations w') = length (EntitySignatures w')"
      using world_inv_D(1)[OF inv] by (simp add: sg gn)
    show "\<And>k. wf_SparseSet (ComponentStores w' k)" using wf hs(1) by (simp add: st)
  next
    fix k x assume h: "holds (ComponentStores w' k) x"
    show "unat (GetIndex x) < length (EntitySignatures w') \<and>
        Test (EntitySignatures w' ! unat (GetIndex x)) k \<and>
        EntityGenerations w' ! unat (GetIndex x) = GetGeneration x"
    proof (cases "k = c \<and> GetIndex x = GetIndex e")
      case True
      then have "x = e" using h by (simp add: st hs(2))
      then show ?thesis using True il ge c by (simp add: sg gn i_def[symmetric] Test_Set)
    next
      case False
      then have h0: "holds (ComponentStores w k) x" using h by (auto simp: st hs(2) split: if_splits)
      show ?thesis
        using world_inv_D(3,4,5)[OF inv h0] il
        by (cases "unat (GetIndex x) = i") (simp_all add: sg gn Test_Set sig_def)
    qed
  next
    fix k and index :: "32 word"
    assume l: "unat index < length (EntitySignatures w')" and t: "Test (EntitySignatures w' ! unat index) k"
    have l0: "unat index < length (EntitySignatures w)" using l by (simp add: sg)
    have inst: "k < length (StoresByID w) \<Longrightarrow> StoresByID w ! k = Some k \<Longrightarrow>
        k < length (StoresByID w') \<and> StoresByID w' ! k = Some k"
      using install_store_props(3)[of "StoresByID w" c] install_store_props(4)[of k c "StoresByID w"]
        install_store_props(1,2)[of c "StoresByID w"]
      by (cases "k = c") (auto simp: sb)
    have trig: "k < length (OnRemovedTriggers w) \<Longrightarrow> OnRemovedTriggers w ! k \<Longrightarrow>
        k < length (OnRemovedTriggers w') \<and> OnRemovedTriggers w' ! k"
      using EnsureSignalStorage_triggers(3)[of w c] EnsureSignalStorage_triggers(4)[of k w c] by (auto simp: tr)
    show "holds (ComponentStores w' k) (MakeEntityID (EntityGenerations w' ! unat index) index) \<and>
        k < length (StoresByID w') \<and> StoresByID w' ! k = Some k \<and>
        k < length (OnRemovedTriggers w') \<and> OnRemovedTriggers w' ! k"
    proof (cases "k = c \<and> index = GetIndex e")
      case True
      have "MakeEntityID (EntityGenerations w ! unat index) index = e"
        using True ge by (simp add: i_def[symmetric] MakeEntityID_parts)
      then show ?thesis
        using True install_store_props(1,2)[of c "StoresByID w"] EnsureSignalStorage_triggers(1,2)[of c w]
        by (simp add: st gn hs(2) sb tr)
    next
      case False
      have t0: "Test (EntitySignatures w ! unat index) k"
        using t False il idx_eq[of "MakeEntityID 0 index"]
        by (cases "unat index = i") (auto simp: sg Test_Set sig_def GetIndex_MakeEntityID)
      have h0: "holds (ComponentStores w k) (MakeEntityID (EntityGenerations w ! unat index) index)"
        using world_inv_D(6)[OF inv l0 t0] .
      have h1: "holds (ComponentStores w' k) (MakeEntityID (EntityGenerations w ! unat index) index)"
      proof (cases "k = c")
        case kc: True
        then have ne: "index \<noteq> GetIndex e" using False by simp
        then show ?thesis using h0 kc by (simp add: st hs(2) GetIndex_MakeEntityID)
      next
        case kc: False
        then show ?thesis using h0 by (simp add: st)
      qed
      show ?thesis using h1 world_inv_D(7)[OF inv l0 t0] inst trig by (simp add: gn)
    qed
  next
    fix f assume "f \<in> set (FreeEntities w')"
    then show "unat (GetIndex f) < length (EntityGenerations w')"
      using world_inv_D(8)[OF inv, of f] by (simp add: fr gn)
  qed
  show ?thesis using a inv' gn by (simp add: sg)
qed

lemma HasComponent_alive:
  "IsAlive w e = Some True \<Longrightarrow> HasComponent w e c = Test (EntitySignatures w ! unat (GetIndex e)) c"
  by (auto simp: HasComponent_def IsAlive_iff Let_def)

lemma IsAlive_defined:
  "length (EntityGenerations w) = length (EntitySignatures w) \<Longrightarrow>
   IsAlive w e = Some True \<or> IsAlive w e = Some False"
  by (auto simp: IsAlive_def Let_def)

lemma RemoveComponent_inv:
  assumes inv: "world_inv w" and al: "IsAlive w e = Some True"
  shows "\<exists>w'. RemoveComponent e c w = Some w' \<and> world_inv w' \<and>
           EntityGenerations w' = EntityGenerations w \<and>
           length (EntitySignatures w') = length (EntitySignatures w)"
proof (cases "HasComponent w e c")
  case False
  then show ?thesis using inv by (simp add: RemoveComponent_def)
next
  case True
  define i where "i = unat (GetIndex e)"
  define sig where "sig = EntitySignatures w ! i"
  have il: "i < length (EntitySignatures w)" and ge: "EntityGenerations w ! i = GetGeneration e"
    using al by (auto simp: IsAlive_iff i_def)
  have t: "Test sig c" using True HasComponent_alive[OF al] by (simp add: sig_def i_def)
  have wf: "\<And>k. wf_SparseSet (ComponentStores w k)" using world_inv_D(2)[OF inv] .
  have h: "holds (ComponentStores w c) e" using alive_holds_iff[OF inv al] t by (simp add: sig_def i_def)
  obtain s' where r: "Remove e (ComponentStores w c) = Some s'" using Remove_defined[OF wf] by blast
  have hs: "wf_SparseSet s'" "\<And>x. holds s' x \<longleftrightarrow> holds (ComponentStores w c) x \<and> x \<noteq> e"
    using holds_Remove[OF wf r] by auto
  define w' where "w' = w\<lparr>Calls := Calls w @ event_calls w c e Removed (stored (ComponentStores w c) e),
      ComponentStores := (ComponentStores w)(c := s'),
      EntitySignatures := (EntitySignatures w)[i := Reset c sig]\<rparr>"
  have a: "RemoveComponent e c w = Some w'"
    using True il r
    by (simp add: RemoveComponent_def Let_def i_def[symmetric] TriggerEvent_Some[OF wf h] GetStore_def
        w'_def sig_def)
  have f: "EntitySignatures w' = (EntitySignatures w)[i := Reset c sig]"
    "EntityGenerations w' = EntityGenerations w" "FreeEntities w' = FreeEntities w"
    "StoresByID w' = StoresByID w" "OnRemovedTriggers w' = OnRemovedTriggers w"
    "ComponentStores w' = (ComponentStores w)(c := s')"
    by (simp_all add: w'_def)
  have same_idx: "\<And>k x. holds (ComponentStores w k) x \<Longrightarrow> unat (GetIndex x) = i \<Longrightarrow> x = e"
  proof -
    fix k x assume hx: "holds (ComponentStores w k) x" and xi: "unat (GetIndex x) = i"
    have "GetIndex x = GetIndex e" using xi by (simp add: i_def word_unat_eq_iff)
    moreover have "GetGeneration x = GetGeneration e" using world_inv_D(5)[OF inv hx] ge xi by simp
    ultimately show "x = e" by (rule entity_eqI)
  qed
  have inv': "world_inv w'"
  proof (rule world_invI)
    show "length (EntityGenerations w') = length (EntitySignatures w')"
      using world_inv_D(1)[OF inv] by (simp add: f)
    show "\<And>k. wf_SparseSet (ComponentStores w' k)" using wf hs(1) by (simp add: f)
  next
    fix k x assume hx': "holds (ComponentStores w' k) x"
    have hx: "holds (ComponentStores w k) x" using hx' by (auto simp: f hs(2) split: if_splits)
    have "k = c \<Longrightarrow> unat (GetIndex x) \<noteq> i" using hx' same_idx[OF hx] by (auto simp: f hs(2))
    then show "unat (GetIndex x) < length (EntitySignatures w') \<and>
        Test (EntitySignatures w' ! unat (GetIndex x)) k \<and>
        EntityGenerations w' ! unat (GetIndex x) = GetGeneration x"
      using world_inv_D(3,4,5)[OF inv hx] il
      by (cases "unat (GetIndex x) = i") (auto simp: f Test_Reset sig_def)
  next
    fix k and index :: "32 word"
    assume l: "unat index < length (EntitySignatures w')" and t': "Test (EntitySignatures w' ! unat index) k"
    have l0: "unat index < length (EntitySignatures w)" using l by (simp add: f)
    have t0: "Test (EntitySignatures w ! unat index) k"
      using t' il by (cases "unat index = i") (auto simp: f Test_Reset sig_def)
    have kc: "k = c \<Longrightarrow> unat index \<noteq> i"
      using t' il by (auto simp: f Test_Reset)
    have h0: "holds (ComponentStores w k) (MakeEntityID (EntityGenerations w ! unat index) index)"
      using world_inv_D(6)[OF inv l0 t0] .
    have "k = c \<Longrightarrow> MakeEntityID (EntityGenerations w ! unat index) index \<noteq> e"
      using kc by (auto simp: i_def GetIndex_MakeEntityID)
    then have "holds (ComponentStores w' k) (MakeEntityID (EntityGenerations w ! unat index) index)"
      using h0 by (auto simp: f hs(2))
    then show "holds (ComponentStores w' k) (MakeEntityID (EntityGenerations w' ! unat index) index) \<and>
        k < length (StoresByID w') \<and> StoresByID w' ! k = Some k \<and>
        k < length (OnRemovedTriggers w') \<and> OnRemovedTriggers w' ! k"
      using world_inv_D(7)[OF inv l0 t0] by (simp add: f)
  next
    fix x assume "x \<in> set (FreeEntities w')"
    then show "unat (GetIndex x) < length (EntityGenerations w')"
      using world_inv_D(8)[OF inv, of x] by (simp add: f)
  qed
  show ?thesis using a inv' by (simp add: f)
qed

lemma data_update_wf:
  assumes "wf_SparseSet s"
  shows "wf_SparseSet (s\<lparr>DenseData := (DenseData s)[r := v]\<rparr>)"
    and "holds (s\<lparr>DenseData := (DenseData s)[r := v]\<rparr>) x = holds s x"
  using assms by (simp_all add: wf_SparseSet_def holds_iff)

lemma PatchComponent_inv:
  assumes inv: "world_inv w" and al: "IsAlive w e = Some True"
  shows "\<exists>w'. PatchComponent e c func w = Some w' \<and> world_inv w' \<and>
           EntityGenerations w' = EntityGenerations w \<and>
           EntitySignatures w' = EntitySignatures w"
proof (cases "HasComponent w e c")
  case False
  then show ?thesis using inv by (simp add: PatchComponent_def)
next
  case True
  have wf: "wf_SparseSet (ComponentStores w c)" using world_inv_D(2)[OF inv] .
  have h: "holds (ComponentStores w c) e"
    using alive_holds_iff[OF inv al] True HasComponent_alive[OF al] by simp
  define r where "r = slots (SparsePages (ComponentStores w c)) (GetIndex e)"
  define s' where "s' = (ComponentStores w c)\<lparr>DenseData :=
       (DenseData (ComponentStores w c))[r := func (DenseData (ComponentStores w c) ! r)]\<rparr>"
  define w1 where "w1 = w\<lparr>ComponentStores := (ComponentStores w)(c := s')\<rparr>"
  have hs: "wf_SparseSet s'" "\<And>x. holds s' x = holds (ComponentStores w c) x"
    using data_update_wf[OF wf] by (simp_all add: s'_def)
  have p: "PatchComponent e c func w = TriggerEvent c e Modified w1"
    using True h by (simp add: PatchComponent_def GetStore_def GetRef_wf[OF wf] r_def s'_def w1_def Let_def)
  have inv1: "world_inv w1"
  proof (rule world_invI)
    show "length (EntityGenerations w1) = length (EntitySignatures w1)"
      using world_inv_D(1)[OF inv] by (simp add: w1_def)
    show "\<And>k. wf_SparseSet (ComponentStores w1 k)" using world_inv_D(2)[OF inv] hs(1) by (simp add: w1_def)
  next
    fix k x assume "holds (ComponentStores w1 k) x"
    then have hx: "holds (ComponentStores w k) x" by (auto simp: w1_def hs(2) split: if_splits)
    show "unat (GetIndex x) < length (EntitySignatures w1) \<and>
        Test (EntitySignatures w1 ! unat (GetIndex x)) k \<and>
        EntityGenerations w1 ! unat (GetIndex x) = GetGeneration x"
      using world_inv_D(3,4,5)[OF inv hx] by (simp add: w1_def)
  next
    fix k and index :: "32 word"
    assume l: "unat index < length (EntitySignatures w1)" and t: "Test (EntitySignatures w1 ! unat index) k"
    then have l0: "unat index < length (EntitySignatures w)" and t0: "Test (EntitySignatures w ! unat index) k"
      by (simp_all add: w1_def)
    show "holds (ComponentStores w1 k) (MakeEntityID (EntityGenerations w1 ! unat index) index) \<and>
        k < length (StoresByID w1) \<and> StoresByID w1 ! k = Some k \<and>
        k < length (OnRemovedTriggers w1) \<and> OnRemovedTriggers w1 ! k"
      using world_inv_D(6)[OF inv l0 t0] world_inv_D(7)[OF inv l0 t0] by (auto simp add: w1_def hs(2))
  next
    fix x assume "x \<in> set (FreeEntities w1)"
    then show "unat (GetIndex x) < length (EntityGenerations w1)"
      using world_inv_D(8)[OF inv, of x] by (simp add: w1_def)
  qed
  have wf1: "wf_SparseSet (ComponentStores w1 c)" and h1: "holds (ComponentStores w1 c) e"
    using hs h by (simp_all add: w1_def)
  show ?thesis
    unfolding p TriggerEvent_Some[OF wf1 h1]
    using world_inv_cong[OF inv1, of "w1\<lparr>Calls := Calls w1 @ event_calls w1 c e Modified (stored (ComponentStores w1 c) e)\<rparr>"]
    by (simp add: w1_def)
qed

lemma resize_grow: "length xs \<le> n \<Longrightarrow> resize xs n d = xs @ replicate (n - length xs) d"
  by (simp add: resize_def)

lemma world_inv_reset_slot:
  assumes inv: "world_inv w" and il: "i < length (EntitySignatures w)"
    and empty: "\<And>c. \<not> Test (EntitySignatures w ! i) c"
    and sub: "set fr \<subseteq> set (FreeEntities w)"
  shows "world_inv (w\<lparr>FreeEntities := fr,
                     EntityGenerations := (EntityGenerations w)[i := g],
                     EntitySignatures := (EntitySignatures w)[i := ResetAll (EntitySignatures w ! i)]\<rparr>)"
    (is "world_inv ?w'")
proof (rule world_invI)
  show "length (EntityGenerations ?w') = length (EntitySignatures ?w')"
    using world_inv_D(1)[OF inv] by simp
  show "\<And>c. wf_SparseSet (ComponentStores ?w' c)" using world_inv_D(2)[OF inv] by simp
next
  fix k x assume "holds (ComponentStores ?w' k) x"
  then have hx: "holds (ComponentStores w k) x" by simp
  have "unat (GetIndex x) \<noteq> i" using world_inv_D(4)[OF inv hx] empty by auto
  then show "unat (GetIndex x) < length (EntitySignatures ?w') \<and>
        Test (EntitySignatures ?w' ! unat (GetIndex x)) k \<and>
        EntityGenerations ?w' ! unat (GetIndex x) = GetGeneration x"
    using world_inv_D(3,4,5)[OF inv hx] by simp
next
  fix k and index :: "32 word"
  assume l: "unat index < length (EntitySignatures ?w')" and t: "Test (EntitySignatures ?w' ! unat index) k"
  have ni: "unat index \<noteq> i" using t il by (auto simp: nth_list_update split: if_splits)
  have l0: "unat index < length (EntitySignatures w)" using l by simp
  have t0: "Test (EntitySignatures w ! unat index) k" using t ni by simp
  show "holds (ComponentStores ?w' k) (MakeEntityID (EntityGenerations ?w' ! unat index) index) \<and>
        k < length (StoresByID ?w') \<and> StoresByID ?w' ! k = Some k \<and>
        k < length (OnRemovedTriggers ?w') \<and> OnRemovedTriggers ?w' ! k"
    using world_inv_D(6)[OF inv l0 t0] world_inv_D(7)[OF inv l0 t0] ni by simp
next
  fix f assume "f \<in> set (FreeEntities ?w')"
  then have "f \<in> set (FreeEntities w)" using sub by auto
  then show "unat (GetIndex f) < length (EntityGenerations ?w')"
    using world_inv_D(8)[OF inv, of f] by simp
qed

lemma CreateEntityWithID_inv:
  assumes inv: "world_inv w" and ok: "create_with_id_ok w e"
  shows "\<exists>w'. CreateEntityWithID e w = Some (e, w') \<and> world_inv w' \<and> IsAlive w' e = Some True"
proof -
  define i where "i = unat (GetIndex e)"
  define w1 where "w1 = (if i \<ge> length (EntitySignatures w)
               then w\<lparr>EntitySignatures := resize (EntitySignatures w) (unat (GetIndex e + 1)) (MakeMask 0),
                      EntityGenerations := resize (EntityGenerations w) (unat (GetIndex e + 1)) 0\<rparr>
               else w)"
  have len: "length (EntityGenerations w) = length (EntitySignatures w)" using world_inv_D(1)[OF inv] .
  have inv1: "world_inv w1" and il: "i < length (EntitySignatures w1)"
    and cases1: "IsAlive w1 e = Some True \<or> (\<forall>c. \<not> Test (EntitySignatures w1 ! i) c)"
  proof -
    show "world_inv w1"
    proof (cases "i \<ge> length (EntitySignatures w)")
      case False
      then show ?thesis using inv by (simp add: w1_def)
    next
      case True
      then have "GetIndex e \<noteq> - 1" using ok by (simp add: create_with_id_ok_def i_def)
      then have s: "unat (GetIndex e + 1) = i + 1" using unat_index_succ by (simp add: i_def)
      have "w1 = w\<lparr>EntitySignatures := EntitySignatures w @ replicate (i + 1 - length (EntitySignatures w)) (MakeMask 0),
                      EntityGenerations := EntityGenerations w @ replicate (i + 1 - length (EntitySignatures w)) 0\<rparr>"
        using True len by (simp add: w1_def s resize_grow)
      then show ?thesis using world_inv_extend[OF inv] by simp
    qed
    show "i < length (EntitySignatures w1)"
    proof (cases "i \<ge> length (EntitySignatures w)")
      case False
      then show ?thesis by (simp add: w1_def)
    next
      case True
      then have "GetIndex e \<noteq> - 1" using ok by (simp add: create_with_id_ok_def i_def)
      then have s: "unat (GetIndex e + 1) = i + 1" using unat_index_succ by (simp add: i_def)
      show ?thesis using True by (simp add: w1_def s)
    qed
    show "IsAlive w1 e = Some True \<or> (\<forall>c. \<not> Test (EntitySignatures w1 ! i) c)"
    proof (cases "i \<ge> length (EntitySignatures w)")
      case False
      then show ?thesis using ok by (auto simp: w1_def create_with_id_ok_def i_def Test_iff)
    next
      case True
      then have "GetIndex e \<noteq> - 1" using ok by (simp add: create_with_id_ok_def i_def)
      then have s: "unat (GetIndex e + 1) = i + 1" using unat_index_succ by (simp add: i_def)
      have "EntitySignatures w1 ! i = MakeMask 0" using True by (simp add: w1_def s nth_resize)
      then show ?thesis by simp
    qed
  qed
  have len1: "length (EntityGenerations w1) = length (EntitySignatures w1)" using world_inv_D(1)[OF inv1] .
  have c0: "CreateEntityWithID e w = do {
       alive \<leftarrow> IsAlive w1 e;
       if alive then Some (e, w1)
       else if i < length (EntityGenerations w1) \<and> i < length (EntitySignatures w1)
       then Some (e,
              w1\<lparr>FreeEntities := filter (\<lambda>freed. GetIndex freed \<noteq> GetIndex e) (FreeEntities w1),
                 EntityGenerations := (EntityGenerations w1)[i := GetGeneration e],
                 EntitySignatures := (EntitySignatures w1)[i := ResetAll (EntitySignatures w1 ! i)]\<rparr>)
       else None }"
    unfolding CreateEntityWithID_def Let_def i_def[symmetric] w1_def[symmetric] ..
  show ?thesis
  proof (cases "IsAlive w1 e = Some True")
    case True
    then show ?thesis using inv1 by (simp add: c0)
  next
    case False
    then have na: "IsAlive w1 e = Some False" using IsAlive_defined[OF len1, of e] by blast
    have em: "\<And>c. \<not> Test (EntitySignatures w1 ! i) c" using cases1 False by blast
    define w2 where "w2 = w1\<lparr>FreeEntities := filter (\<lambda>freed. GetIndex freed \<noteq> GetIndex e) (FreeEntities w1),
                 EntityGenerations := (EntityGenerations w1)[i := GetGeneration e],
                 EntitySignatures := (EntitySignatures w1)[i := ResetAll (EntitySignatures w1 ! i)]\<rparr>"
    have inv2: "world_inv w2"
      unfolding w2_def by (rule world_inv_reset_slot[OF inv1 il em]) auto
    have al2: "IsAlive w2 e = Some True"
      using il len1 by (simp add: IsAlive_iff w2_def i_def[symmetric])
    show ?thesis using na il len1 inv2 al2 by (simp add: c0 w2_def)
  qed
qed

lemma drain_free_inv:
  assumes "world_inv w"
  shows "\<exists>n' w' es. drain_free n w acc = Some (n', w', es) \<and> world_inv w' \<and> n' \<le> n \<and>
           EntitySignatures w' = EntitySignatures w"
  using assms
proof (induction n arbitrary: w acc)
  case 0
  then show ?case by simp
next
  case (Suc n)
  show ?case
  proof (cases "FreeEntities w = []")
    case True
    then show ?thesis using Suc.prems by simp
  next
    case False
    then have "last (FreeEntities w) \<in> set (FreeEntities w)" by simp
    then have l: "unat (GetIndex (last (FreeEntities w))) < length (EntityGenerations w)"
      using world_inv_D(8)[OF Suc.prems] by blast
    define w1 where "w1 = w\<lparr>FreeEntities := butlast (FreeEntities w)\<rparr>"
    have inv1: "world_inv w1"
      unfolding w1_def by (rule world_inv_cong[OF Suc.prems]) (auto dest: in_set_butlastD)
    obtain e where c: "CreateEntity w = Some (e, w1)"
      using False l by (simp add: CreateEntity_def Let_def w1_def)
    obtain n' w' es where d: "drain_free n w1 (acc @ [e]) = Some (n', w', es)" and i': "world_inv w'"
      and n': "n' \<le> n" and s': "EntitySignatures w' = EntitySignatures w1"
      using Suc.IH[OF inv1, of "acc @ [e]"] by blast
    show ?thesis using False c d i' n' s' by (simp add: w1_def)
  qed
qed

lemma CreateEntitiesBulk_inv:
  assumes inv: "world_inv w" and cap: "length (EntitySignatures w) + n < 2 ^ 32"
  shows "\<exists>es w'. CreateEntitiesBulk n w = Some (es, w') \<and> world_inv w'"
proof -
  obtain n' w1 es where d: "drain_free n w [] = Some (n', w1, es)" and inv1: "world_inv w1"
    and n': "n' \<le> n" and s1: "EntitySignatures w1 = EntitySignatures w"
    using drain_free_inv[OF inv, of n "[]"] by blast
  show ?thesis
  proof (cases "n' > 0")
    case False
    then show ?thesis using d inv1 by (simp add: CreateEntitiesBulk_def)
  next
    case True
    define L where "L = length (EntitySignatures w1)"
    have L: "L + n' < 2 ^ 32" using cap n' by (simp add: L_def s1)
    then have u: "unat (of_nat L :: 32 word) = L" by (simp add: unat_of_nat)
    have ns: "(L + n') mod 2 ^ 64 = L + n'" using L by simp
    have len1: "length (EntityGenerations w1) = L" using world_inv_D(1)[OF inv1] by (simp add: L_def)
    have "world_inv (w1\<lparr>EntitySignatures := EntitySignatures w1 @ replicate n' (MakeMask 0),
                      EntityGenerations := EntityGenerations w1 @ replicate n' 0\<rparr>)"
      by (rule world_inv_extend[OF inv1])
    then have "world_inv (w1\<lparr>EntitySignatures := resize (EntitySignatures w1) (L + n') (MakeMask 0),
                         EntityGenerations := resize (EntityGenerations w1) (L + n') 0\<rparr>)"
      using len1 by (simp add: resize_grow L_def)
    then show ?thesis
      using d True L by (simp add: CreateEntitiesBulk_def Let_def L_def[symmetric] u ns)
  qed
qed

lemma apply_call_inv:
  assumes inv: "world_inv w" and ok: "call_ok w call"
  shows "\<exists>w'. apply_call call w = Some w' \<and> world_inv w'"
proof (cases call)
  case CallCreateEntity
  then show ?thesis using CreateEntity_inv[OF inv] by auto
next
  case (CallCreateEntitiesBulk n)
  then show ?thesis using CreateEntitiesBulk_inv[OF inv, of n] ok by auto
next
  case (CallCreateEntityWithID e)
  then show ?thesis using CreateEntityWithID_inv[OF inv, of e] ok by auto
next
  case (CallDestroyEntity e)
  show ?thesis
  proof (cases "IsAlive w e = Some True")
    case True
    then show ?thesis using DestroyEntity_inv[OF inv True] CallDestroyEntity by auto
  next
    case False
    then have "IsAlive w e = Some False" using IsAlive_defined[OF world_inv_D(1)[OF inv], of e] by blast
    then show ?thesis using inv CallDestroyEntity by (simp add: DestroyEntity_not_alive)
  qed
next
  case (CallAddComponent e c v)
  then show ?thesis using AddComponent_inv[OF inv, of e c v] ok by auto
next
  case (CallRemoveComponent e c)
  show ?thesis
  proof (cases "IsAlive w e = Some True")
    case True
    then show ?thesis using RemoveComponent_inv[OF inv True, of c] CallRemoveComponent by auto
  next
    case False
    then have "\<not> HasComponent w e c" using ok CallRemoveComponent by simp
    then show ?thesis using inv CallRemoveComponent by (simp add: RemoveComponent_def)
  qed
next
  case (CallPatchComponent e c func)
  show ?thesis
  proof (cases "IsAlive w e = Some True")
    case True
    then show ?thesis using PatchComponent_inv[OF inv True, of c func] CallPatchComponent by auto
  next
    case False
    then have "\<not> HasComponent w e c" using ok CallPatchComponent by simp
    then show ?thesis using inv CallPatchComponent by (simp add: PatchComponent_def)
  qed
next
  case (CallOnEvent c ev cb)
  then show ?thesis using world_inv_OnEvent[OF inv] by simp
qed

lemma reachable_inv: "reachable w \<Longrightarrow> world_inv w"
proof (induction rule: reachable.induct)
  case reachable_empty
  then show ?case by (rule world_inv_empty)
next
  case (reachable_step w call w')
  then show ?case using apply_call_inv[of w call] by auto
qed

lemma world_inv_three_way:
  assumes inv: "world_inv w" and al: "IsAlive w e = Some True"
  shows "(HasComponent w e c \<longleftrightarrow> Test (EntitySignatures w ! unat (GetIndex e)) c) \<and>
         (HasComponent w e c \<longleftrightarrow> Contains (GetStore w c) e = Some True)"
  using alive_holds_iff[OF inv al, of c] HasComponent_alive[OF al, of c]
  by (simp add: GetStore_def Contains_wf[OF world_inv_D(2)[OF inv]])

lemma world_component_add: "AddComponent 0 0 5 world_observed = Some world_component"
proof -
  have wf: "wf_SparseSet (ComponentStores world_observed 0)"
    by (simp add: world_observed_def world1_store wf_empty)
  have idx: "unat (GetIndex 0) < length (EntitySignatures world_observed)"
    by (simp add: ents_eval world_observed_def world1_def)
  obtain w where "AddComponent 0 0 5 world_observed = Some w"
    using AddComponent_effect[OF wf idx, of 5] by blast
  then show ?thesis by (simp add: world_component_def)
qed

lemma world_component_value: "GetComponent world_component 0 0 = Some 5"
proof -
  have wf: "wf_SparseSet (ComponentStores world_observed 0)"
    by (simp add: world_observed_def world1_store wf_empty)
  have idx: "unat (GetIndex 0) < length (EntitySignatures world_observed)"
    by (simp add: ents_eval world_observed_def world1_def)
  obtain w s' where a: "AddComponent 0 0 5 world_observed = Some w"
    and ins: "Insert 0 5 (ComponentStores world_observed 0) = Some s'"
    and st: "ComponentStores w = (ComponentStores world_observed)(0 := s')"
    using AddComponent_effect[OF wf idx, of 5] by blast
  have w: "world_component = w" using a by (simp add: world_component_add)
  show ?thesis using holds_Insert[OF wf ins]
    by (simp add: w GetComponent_def GetStore_def st Get_stored)
qed

lemma reachable_world_component: "reachable world_component"
proof -
  have r1: "reachable (world1 :: nat World)"
    by (rule reachable_step[OF reachable_empty, of CallCreateEntity]) (simp_all add: stale_world_steps)
  have r2: "reachable world_observed"
    by (rule reachable_step[OF r1, of "CallOnEvent 0 Added 1"]) (simp_all add: world_observed_def)
  have al: "IsAlive world_observed 0 = Some True"
    by (simp add: IsAlive_iff world_observed_def world1_def ents_eval)
  show ?thesis
    by (rule reachable_step[OF r2, of "CallAddComponent 0 0 5"]) (simp_all add: al world_component_add)
qed

lemma reachable_stale_world: "stale_world = Some w \<Longrightarrow> reachable w"
proof -
  assume s: "stale_world = Some w"
  have r1: "reachable (world1 :: nat World)"
    by (rule reachable_step[OF reachable_empty, of CallCreateEntity]) (simp_all add: stale_world_steps)
  have r2: "reachable (world_reused\<lparr>FreeEntities := [0x100000000]\<rparr>)"
    by (rule reachable_step[OF r1, of "CallDestroyEntity 0"]) (simp_all add: stale_world_steps)
  have r3: "reachable world_reused"
    by (rule reachable_step[OF r2, of CallCreateEntity]) (simp_all add: stale_world_steps)
  have al: "IsAlive world_reused 0x100000000 = Some True"
    by (simp add: IsAlive_iff world_reused_def ents_eval)
  show "reachable w"
    by (rule reachable_step[OF r3, of "CallAddComponent 0x100000000 0 42"])
       (use s al in \<open>simp_all add: stale_world_eq\<close>)
qed

lemma filter_eq_0: "filter (\<lambda>c. c = (0::nat)) [0..<256] = [0]"
proof -
  have "[0..<256] = (0::nat) # [1..<256]" by (simp add: upt_conv_Cons del: upt_rec_numeral)
  moreover have "filter (\<lambda>c. c = (0::nat)) [1..<256] = []"
    by (rule filter_False) (simp del: upt_rec_numeral)
  ultimately show ?thesis by simp
qed

lemma world_component_registered:
  "registered world_component c ev = registered world_observed c ev"
proof -
  have wf: "wf_SparseSet (ComponentStores world_observed 0)"
    by (simp add: world_observed_def world1_store wf_empty)
  have idx: "unat (GetIndex 0) < length (EntitySignatures world_observed)"
    by (simp add: ents_eval world_observed_def world1_def)
  obtain w where a: "AddComponent 0 0 5 world_observed = Some w"
    and cs: "ComponentSignals w = ComponentSignals world_observed"
    using AddComponent_effect[OF wf idx, of 5] by blast
  have w: "world_component = w" using a by (simp add: world_component_add)
  show ?thesis by (simp add: registered_def w cs)
qed

lemma world_component_free: "FreeEntities world_component = []"
proof -
  have wf: "wf_SparseSet (ComponentStores world_observed 0)"
    by (simp add: world_observed_def world1_store wf_empty)
  have idx: "unat (GetIndex 0) < length (EntitySignatures world_observed)"
    by (simp add: ents_eval world_observed_def world1_def)
  obtain w where a: "AddComponent 0 0 5 world_observed = Some w"
    and fr: "FreeEntities w = FreeEntities world_observed"
    using AddComponent_effect[OF wf idx, of 5] by blast
  have w: "world_component = w" using a by (simp add: world_component_add)
  show ?thesis by (simp add: w fr world_observed_def world1_def empty_World_def)
qed

lemma world_large_props:
  "AddComponent 0 256 7 world1 = Some world_large"
  "IsAlive world_large 0 = Some True"
  "Contains (GetStore world_large 256) 0 = Some True"
  "EntitySignatures world_large = [MakeMask 0]"
  "wf_SparseSet (ComponentStores world_large c)"
  "GetComponent world_large 0 256 = Some 7"
  "Size (GetStore world_large 256) = 1"
  "c \<noteq> 256 \<Longrightarrow> Size (GetStore world_large c) = 0"
proof -
  have wf: "wf_SparseSet (ComponentStores world1 256)" by (simp add: world1_store wf_empty)
  have idx: "unat (GetIndex 0) < length (EntitySignatures world1)"
    by (simp add: ents_eval world1_def)
  obtain w s' where a: "AddComponent 0 256 7 world1 = Some w"
    and ins: "Insert 0 7 (ComponentStores world1 256) = Some s'"
    and st: "ComponentStores w = (ComponentStores world1)(256 := s')"
    and sg: "EntitySignatures w = (EntitySignatures world1)
              [unat (GetIndex 0) := Set 256 (EntitySignatures world1 ! unat (GetIndex 0))]"
    and gn: "EntityGenerations w = EntityGenerations world1"
    using AddComponent_effect[OF wf idx, of 7] by blast
  have w: "world_large = w" by (simp add: world_large_def a)
  have hi: "wf_SparseSet s'" "holds s' 0" "stored s' 0 = 7"
    using holds_Insert[OF wf ins] by auto
  show "AddComponent 0 256 7 world1 = Some world_large" by (simp add: w a)
  show "IsAlive world_large 0 = Some True"
    by (simp add: w IsAlive_iff sg gn world1_def ents_eval)
  show "Contains (GetStore world_large 256) 0 = Some True"
    using hi by (simp add: w GetStore_def st Contains_wf)
  show "EntitySignatures world_large = [MakeMask 0]"
    by (simp add: w sg world1_def ents_eval Set_out_of_range)
  show "wf_SparseSet (ComponentStores world_large c)"
    using hi(1) by (simp add: w st world1_store wf_empty)
  show "GetComponent world_large 0 256 = Some 7"
    using hi by (simp add: w GetComponent_def GetStore_def st Get_stored)
  have "slots (SparsePages (ComponentStores world1 256)) (GetIndex 0) = k_NullIndex"
    by (simp add: world1_store empty_SparseSet_def slots_def read_slot_def)
  from Insert_Size_absent[OF wf this ins]
  show "Size (GetStore world_large 256) = 1"
    by (simp add: w GetStore_def st world1_store Size_def empty_SparseSet_def)
  show "c \<noteq> 256 \<Longrightarrow> Size (GetStore world_large c) = 0"
    by (simp add: w GetStore_def st world1_store Size_def empty_SparseSet_def)
qed

lemma world_large_destroy:
  "\<exists>w'. DestroyEntity 0 world_large = Some w' \<and> Contains (GetStore w' 256) 0 = Some True"
  using world_large_props(2,3)
  by (simp add: DestroyEntity_def world_large_props(4) ents_eval ForEachSetBit_empty GetStore_def
      Let_def)

lemma run_ops_invariant:
  assumes "wf_SparseSet s"
    and "\<forall>j e v. entries s j = Some (e, v) \<longrightarrow> m j = Some e"
  shows "\<exists>s'. run_ops ops s = Some s' \<and> wf_SparseSet s' \<and>
           (\<forall>j e v. entries s' j = Some (e, v) \<longrightarrow> last_writer ops m j = Some e)"
  using assms
proof (induction ops arbitrary: s m)
  case Nil
  then show ?case by simp
next
  case (Cons op ops)
  show ?case
  proof (cases op)
    case (OpInsert e v)
    obtain s1 where i: "Insert e v s = Some s1" and w1: "wf_SparseSet s1"
      and e1: "entries s1 = (entries s)(GetIndex e \<mapsto> (e, v))"
      using Insert_wf[OF Cons.prems(1)] by blast
    have "\<forall>j e' v'. entries s1 j = Some (e', v') \<longrightarrow> (m(GetIndex e \<mapsto> e)) j = Some e'"
      using Cons.prems(2) by (auto simp: e1)
    from Cons.IH[of s1 "m(GetIndex e \<mapsto> e)", OF w1 this] show ?thesis
      using i OpInsert by (simp del: fun_upd_apply)
  next
    case (OpRemove e)
    obtain s1 where i: "Remove e s = Some s1" and w1: "wf_SparseSet s1"
      and e1: "entries s1 = (if holds s e then (entries s)(GetIndex e := None) else entries s)"
      using Remove_wf[OF Cons.prems(1)] by blast
    have "\<forall>j e' v'. entries s1 j = Some (e', v') \<longrightarrow> m j = Some e'"
      using Cons.prems(2) by (auto simp: e1 split: if_splits)
    from Cons.IH[of s1 m, OF w1 this] show ?thesis using i OpRemove by simp
  qed
qed

lemma wf_read_slot:
  assumes wf: "wf_SparseSet s" and i: "i < length (DenseToEntity s)"
  shows "read_slot (SparsePages s) (GetIndex (DenseToEntity s ! i)) = Some i"
proof -
  have a: "slots (SparsePages s) (GetIndex (DenseToEntity s ! i)) = i" using wf_D(3)[OF wf i] .
  have "i \<noteq> k_NullIndex" using wf_slot_not_null[OF wf i] .
  then show ?thesis using a by (auto simp: slots_def split: option.splits)
qed

text \<open>
  Claim C5 (ABA resistance of the sparse set). If the set holds an entry for the identifier
  \<open>e\<close> and \<open>e'\<close> is a stale identifier with the same index but another generation, then
  \<open>Remove e'\<close> returns the set unchanged and \<open>Contains e'\<close> returns false.
\<close>
theorem C5_stale_identifier_rejected:
  assumes "Contains s e = Some True"
    and "GetIndex e' = GetIndex e"
    and "GetGeneration e' \<noteq> GetGeneration e"
  shows "Remove e' s = Some s \<and> Contains s e' = Some False"
proof -
  have ne: "e \<noteq> e'" using assms(3) by auto
  from assms(1) obtain d where
      pg: "\<not> (GetPageID (GetIndex e) \<ge> length (SparsePages s) \<or> SparsePages s ! GetPageID (GetIndex e) = None)"
    and r: "read_slot (SparsePages s) (GetIndex e) = Some d"
    and d: "d \<noteq> k_NullIndex" "d < length (DenseToEntity s)" "DenseToEntity s ! d = e"
    by (auto simp: Contains_def Let_def split: if_splits bind_splits)
  show ?thesis
    using pg r d ne by (auto simp: Remove_def Contains_def Let_def assms(2))
qed

lemma names_set_eval:
  "GetIndex e1_g0 = 1" "GetIndex e1_g1 = 1" "GetGeneration e1_g0 = 0" "GetGeneration e1_g1 = 1"
  "GetPageID 1 = 0" "GetPageOffset 1 = 1"
  by (simp_all add: GetIndex_def GetGeneration_def e1_g0_def e1_g1_def GetPageID_def
      GetPageOffset_def k_PageSize_def)

theorem C5_stale_identifier_rejected_witness:
  "Contains names_set e1_g0 = Some True \<and> GetIndex e1_g1 = GetIndex e1_g0 \<and>
   GetGeneration e1_g1 \<noteq> GetGeneration e1_g0 \<and>
   Remove e1_g1 names_set = Some names_set \<and> Contains names_set e1_g1 = Some False"
proof -
  have h1: "Contains names_set e1_g0 = Some True"
    by (simp add: Contains_def names_set_def names_set_eval read_slot_def k_PageSize_def k_NullIndex_def)
  have h2: "GetIndex e1_g1 = GetIndex e1_g0" by (simp add: names_set_eval)
  have h3: "GetGeneration e1_g1 \<noteq> GetGeneration e1_g0" by (simp add: names_set_eval)
  show ?thesis using C5_stale_identifier_rejected[OF h1 h2 h3] h1 h2 h3 by simp
qed

text \<open>
  Claim C6 (sparse-set invariants). Every sequence of \<open>Insert\<close> and \<open>Remove\<close> calls, run from
  the empty set, completes without an out-of-range access and ends in a set where
  (a) the dense data and entity sequences have the same length,
  (b) for every dense index \<open>i\<close> the sparse slot of \<open>entities[i]\<close>'s index holds \<open>i\<close>, and
  (c) \<open>entities[i]\<close> is the identifier passed to the last \<open>Insert\<close> for its index.
\<close>
theorem C6_sparse_set_invariants:
  "\<exists>s. run_ops ops empty_SparseSet = Some s \<and>
       length (DenseData s) = length (DenseToEntity s) \<and>
       (\<forall>i < length (DenseToEntity s).
          read_slot (SparsePages s) (GetIndex (DenseToEntity s ! i)) = Some i \<and>
          last_writer ops Map.empty (GetIndex (DenseToEntity s ! i)) = Some (DenseToEntity s ! i))"
proof -
  have "\<forall>j e v. entries (empty_SparseSet :: 'a SparseSet) j = Some (e, v) \<longrightarrow> Map.empty j = Some e"
    by (simp add: entries_empty)
  from run_ops_invariant[OF wf_empty this, of ops]
  obtain s where r: "run_ops ops empty_SparseSet = Some s" and wf: "wf_SparseSet s"
    and lw: "\<forall>j e v. entries s j = Some (e, v) \<longrightarrow> last_writer ops Map.empty j = Some e"
    by blast
  have c: "\<forall>i < length (DenseToEntity s).
          read_slot (SparsePages s) (GetIndex (DenseToEntity s ! i)) = Some i \<and>
          last_writer ops Map.empty (GetIndex (DenseToEntity s ! i)) = Some (DenseToEntity s ! i)"
  proof (intro allI impI conjI)
    fix i assume i: "i < length (DenseToEntity s)"
    show "read_slot (SparsePages s) (GetIndex (DenseToEntity s ! i)) = Some i"
      using wf_read_slot[OF wf i] .
    have a: "slots (SparsePages s) (GetIndex (DenseToEntity s ! i)) = i" using wf_D(3)[OF wf i] .
    have "entries s (GetIndex (DenseToEntity s ! i)) = Some (DenseToEntity s ! i, DenseData s ! i)"
      using a wf_slot_not_null[OF wf i] by (simp add: entries_def)
    then show "last_writer ops Map.empty (GetIndex (DenseToEntity s ! i)) = Some (DenseToEntity s ! i)"
      using lw by blast
  qed
  show ?thesis using r wf_D(1)[OF wf] c by blast
qed

lemma EnsurePage_eval:
  "EnsurePage [] 0 = [Some (replicate k_PageSize k_NullIndex)]"
  "EnsurePage [Some pg] 0 = [Some pg]"
  by (simp_all add: EnsurePage_def)

lemma scenario2_run:
  "run_ops scenario2 empty_SparseSet =
     Some \<lparr>DenseData = [''New''], DenseToEntity = [e1_g1],
            SparsePages = [Some ((replicate k_PageSize k_NullIndex)[1 := 0])]\<rparr>"
  by (simp add: scenario2_def Insert_def Remove_def empty_SparseSet_def names_set_eval
      EnsurePage_eval read_slot_def write_slot_def k_PageSize_def k_NullIndex_def Let_def)

theorem C6_sparse_set_invariants_witness:
  "\<exists>s. run_ops scenario2 empty_SparseSet = Some s \<and>
       DenseToEntity s = [e1_g1] \<and> DenseData s = [''New''] \<and>
       read_slot (SparsePages s) (GetIndex e1_g1) = Some 0 \<and>
       last_writer scenario2 Map.empty (GetIndex e1_g1) = Some e1_g1"
proof -
  obtain s where r: "run_ops scenario2 empty_SparseSet = Some s"
    and b: "\<forall>i < length (DenseToEntity s).
          read_slot (SparsePages s) (GetIndex (DenseToEntity s ! i)) = Some i \<and>
          last_writer scenario2 Map.empty (GetIndex (DenseToEntity s ! i)) = Some (DenseToEntity s ! i)"
    using C6_sparse_set_invariants[of scenario2] by blast
  have s: "DenseToEntity s = [e1_g1]" "DenseData s = [''New'']"
    using r unfolding scenario2_run by auto
  have "0 < length (DenseToEntity s)" by (simp add: s)
  with b have "read_slot (SparsePages s) (GetIndex (DenseToEntity s ! 0)) = Some 0 \<and>
          last_writer scenario2 Map.empty (GetIndex (DenseToEntity s ! 0)) = Some (DenseToEntity s ! 0)"
    by blast
  then show ?thesis using r s by simp
qed



text \<open>
  Claim C7 (re-adding a component). If the live entity \<open>e\<close> already holds a component of the
  type with id \<open>c\<close>, then \<open>AddComponent e c v\<close> completes, the stored value becomes \<open>v\<close>,
  the store keeps its size, and the only observer calls made are one call of each registered
  Added observer of \<open>c\<close>, with \<open>(e, v)\<close>, in registration order: no Removed observer runs.
\<close>
theorem C7_add_overwrites_and_refires_added:
  assumes "IsAlive w e = Some True"
    and "wf_SparseSet (GetStore w c)"
    and "Contains (GetStore w c) e = Some True"
  shows "\<exists>w'. AddComponent e c v w = Some w' \<and>
           GetComponent w' e c = Some v \<and>
           Size (GetStore w' c) = Size (GetStore w c) \<and>
           Calls w' = Calls w @ map (\<lambda>cb. Call Added c cb e v) (registered w c Added)"
proof -
  have wf: "wf_SparseSet (ComponentStores w c)" using assms(2) by (simp add: GetStore_def)
  have h: "holds (ComponentStores w c) e" using assms(3) wf by (simp add: GetStore_def Contains_holds)
  obtain w' s' where a: "AddComponent e c v w = Some w'"
    and ins: "Insert e v (ComponentStores w c) = Some s'"
    and st: "ComponentStores w' = (ComponentStores w)(c := s')"
    and calls: "Calls w' = Calls w @ event_calls w c e Added v"
    using AddComponent_effect[OF wf IsAlive_index[OF assms(1)], of v] by blast
  have g: "GetComponent w' e c = Some v"
    using holds_Insert[OF wf ins] by (simp add: GetComponent_def GetStore_def st Get_stored)
  have sz: "Size (GetStore w' c) = Size (GetStore w c)"
    using Insert_Size_present[OF wf h ins] by (simp add: GetStore_def st)
  show ?thesis using a g sz calls by (simp add: event_calls_def)
qed

text \<open>
  Claim C4, as amended. A component id of 256 or more is not rejected: for a live entity
  \<open>AddComponent\<close> completes, the value is stored in the type's sparse set, the signature is
  left as it was (\<open>Set\<close> ignores bits from 256 on) and \<open>HasComponent\<close> stays false.
\<close>
theorem C4_large_component_id_accepted:
  assumes "256 \<le> c"
    and "IsAlive w e = Some True"
    and "wf_SparseSet (GetStore w c)"
  shows "\<exists>w'. AddComponent e c v w = Some w' \<and>
           Contains (GetStore w' c) e = Some True \<and>
           GetComponent w' e c = Some v \<and>
           EntitySignatures w' = EntitySignatures w \<and>
           \<not> HasComponent w' e c"
  using AddComponent_large_id[OF assms] .

theorem C4_large_component_id_accepted_witness:
  "\<exists>w'. AddComponent 0 256 7 world1 = Some w' \<and>
           Contains (GetStore w' 256) 0 = Some True \<and>
           GetComponent w' 0 256 = Some 7 \<and>
           EntitySignatures w' = EntitySignatures world1 \<and>
           \<not> HasComponent w' 0 256"
proof -
  have h1: "(256::nat) \<le> 256" by simp
  have h3: "wf_SparseSet (GetStore world1 256)" by (simp add: GetStore_def world1_store wf_empty)
  show ?thesis using C4_large_component_id_accepted[OF h1 world1_alive h3] .
qed

theorem C4_rejection_counterexample:
  "\<not> (\<forall>w'. AddComponent 0 256 (7::nat) world1 = Some w' \<longrightarrow>
          \<not> (Contains (GetStore w' 256) 0 = Some True \<and> \<not> HasComponent w' 0 256))"
proof -
  have h1: "(256::nat) \<le> 256" by simp
  have h3: "wf_SparseSet (GetStore world1 256)" by (simp add: GetStore_def world1_store wf_empty)
  obtain w' where "AddComponent 0 256 7 world1 = Some w'"
    "Contains (GetStore w' 256) 0 = Some True" "\<not> HasComponent w' 0 256"
    using AddComponent_large_id[OF h1 world1_alive h3, of 7] by blast
  then show ?thesis by blast
qed

text \<open>
  Claim C9. \<open>HasComponent\<close> reads only the index half of the identifier: two identifiers with the
  same index get the same answer whatever their generations. In particular, after
  create, destroy, create (the slot is reused with generation 1) and add, the stale
  identifier of generation 0 is not alive, is not in the store, and still has the component
  according to \<open>HasComponent\<close>.
\<close>

theorem C9_HasComponent_ignores_generation:
  "(GetIndex a = GetIndex b \<longrightarrow> HasComponent w a c = HasComponent w b c) \<and>
   (\<exists>w. stale_world = Some w \<and> IsAlive w 0 = Some False \<and> IsAlive w 0x100000000 = Some True \<and>
       HasComponent w 0 0 \<and> Contains (GetStore w 0) 0 = Some False \<and>
       Contains (GetStore w 0) 0x100000000 = Some True)"
  using stale_world_props by (simp add: HasComponent_def)

theorem C9_HasComponent_ignores_generation_witness:
  "GetIndex 0 = GetIndex 0x100000000 \<and> GetGeneration 0 \<noteq> GetGeneration 0x100000000 \<and>
   HasComponent (world1 :: nat World) 0 5 = HasComponent world1 0x100000000 5"
proof -
  have h: "GetIndex 0 = GetIndex 0x100000000" by (simp add: ents_eval)
  have g: "GetGeneration 0 \<noteq> GetGeneration 0x100000000" by (simp add: ents_eval)
  from C9_HasComponent_ignores_generation[of 0 "0x100000000" world1 5] h g
  show ?thesis by blast
qed

theorem C7_add_overwrites_and_refires_added_witness:
  "IsAlive world_component 0 = Some True \<and>
   Contains (GetStore world_component 0) 0 = Some True \<and>
   (\<exists>w'. AddComponent 0 0 9 world_component = Some w' \<and>
         GetComponent w' 0 0 = Some 9 \<and>
         Size (GetStore w' 0) = 1 \<and>
         Calls w' = [Call Added 0 1 0 5, Call Added 0 1 0 9])"
  using C7_add_overwrites_and_refires_added[OF world_component_props(1,2,3), of 9]
    world_component_props by simp


text \<open>
  Claim C1, as amended. In every world reached from the empty world by public operations
  that respect \<open>call_ok\<close>, and for every live identifier \<open>e\<close> and component id \<open>c\<close>:
  \<open>HasComponent\<close> holds iff the signature bit of \<open>c\<close> is set at \<open>e\<close>'s index, iff the store
  of \<open>c\<close> contains \<open>e\<close> under full identifier equality. Every operation that respects
  \<open>call_ok\<close> completes and leads to such a world again.
\<close>

theorem C1_signature_store_equivalence:
  assumes "reachable w"
  shows "(\<forall>e c. IsAlive w e = Some True \<longrightarrow>
            (HasComponent w e c \<longleftrightarrow> Test (EntitySignatures w ! unat (GetIndex e)) c) \<and>
            (HasComponent w e c \<longleftrightarrow> Contains (GetStore w c) e = Some True)) \<and>
         (\<forall>call. call_ok w call \<longrightarrow> (\<exists>w'. apply_call call w = Some w' \<and> reachable w'))"
proof (intro conjI allI impI)
  fix e c assume "IsAlive w e = Some True"
  then show "HasComponent w e c \<longleftrightarrow> Test (EntitySignatures w ! unat (GetIndex e)) c"
    and "HasComponent w e c \<longleftrightarrow> Contains (GetStore w c) e = Some True"
    using world_inv_three_way[OF reachable_inv[OF assms]] by blast+
next
  fix call assume ok: "call_ok w call"
  obtain w' where "apply_call call w = Some w'"
    using apply_call_inv[OF reachable_inv[OF assms] ok] by blast
  then show "\<exists>w'. apply_call call w = Some w' \<and> reachable w'"
    using reachable_step[OF assms ok] by blast
qed

theorem C1_signature_store_equivalence_witness:
  "reachable world_component \<and> IsAlive world_component 0 = Some True \<and>
   HasComponent world_component 0 0 \<and>
   Test (EntitySignatures world_component ! unat (GetIndex 0)) 0 \<and>
   Contains (GetStore world_component 0) 0 = Some True \<and>
   call_ok world_component (CallDestroyEntity 0) \<and>
   (\<exists>w'. apply_call (CallDestroyEntity 0) world_component = Some w' \<and> reachable w')"
  using C1_signature_store_equivalence[OF reachable_world_component]
    reachable_world_component world_component_props(1,7)
  by (metis call_ok.simps(4))

theorem C1_stale_identifier_counterexample:
  "\<not> (\<forall>(w :: nat World) e c. reachable w \<longrightarrow>
         (HasComponent w e c \<longleftrightarrow> Contains (GetStore w c) e = Some True))"
proof -
  obtain w where s: "stale_world = Some w" and h: "HasComponent w 0 0"
    and c: "Contains (GetStore w 0) 0 = Some False"
    using stale_world_props by blast
  have "reachable w" using reachable_stale_world[OF s] .
  then show ?thesis using h c by (metis option.inject)
qed

text \<open>
  Claim C3, as amended. In a world that satisfies the store/signature invariant, destroying a
  live entity \<open>e\<close> completes and leaves its signature empty, its slot's generation one higher
  (modulo \<open>2^32\<close>), the identifier of the new generation on top of the free list, no store
  containing \<open>e\<close>, and one call to each registered Removed observer of each component type
  \<open>e\<close> held, the types taken in ascending component id order, each call seeing the value
  stored before removal.
\<close>

theorem C3_destroy_entity:
  assumes "world_inv w" and "IsAlive w e = Some True"
  shows "\<exists>w'. DestroyEntity e w = Some w' \<and>
     (\<forall>c. \<not> Test (EntitySignatures w' ! unat (GetIndex e)) c) \<and>
     EntityGenerations w' ! unat (GetIndex e) = EntityGenerations w ! unat (GetIndex e) + 1 \<and>
     FreeEntities w' = FreeEntities w @
        [MakeEntityID (EntityGenerations w' ! unat (GetIndex e)) (GetIndex e)] \<and>
     (\<forall>c. Contains (GetStore w' c) e = Some False) \<and>
     Calls w' = Calls w @ concat (map
        (\<lambda>c. map (\<lambda>cb. Call Removed c cb e (the (GetComponent w e c))) (registered w c Removed))
        (filter (HasComponent w e) [0..<256]))"
proof -
  define i where "i = unat (GetIndex e)"
  define sig where "sig = EntitySignatures w ! unat (GetIndex e)"
  obtain w' where d: "DestroyEntity e w = Some w'"
    and eq: "w' = w\<lparr>ComponentStores := ComponentStores w', Calls := Calls w',
            EntitySignatures := (EntitySignatures w)[i := ResetAll sig],
            EntityGenerations := (EntityGenerations w)[i := EntityGenerations w ! i + 1],
            FreeEntities := FreeEntities w @ [MakeEntityID (EntityGenerations w ! i + 1) (GetIndex e)]\<rparr>"
    and calls: "Calls w' = Calls w @ concat (map (\<lambda>c. event_calls w c e Removed (stored (ComponentStores w c) e))
                                   (filter (Test sig) [0..<256]))"
    using DestroyEntity_alive[OF assms] unfolding i_def sig_def by blast
  obtain w'' where d2: "DestroyEntity e w = Some w''" and inv': "world_inv w''"
    and nh: "\<forall>c. \<not> holds (ComponentStores w'' c) e"
    using DestroyEntity_inv[OF assms] by blast
  have w'': "w'' = w'" using d d2 by simp
  have il: "i < length (EntitySignatures w)" "i < length (EntityGenerations w)"
    using assms(2) by (auto simp: IsAlive_iff i_def)
  have f: "EntitySignatures w' = (EntitySignatures w)[i := ResetAll sig]"
    "EntityGenerations w' = (EntityGenerations w)[i := EntityGenerations w ! i + 1]"
    "FreeEntities w' = FreeEntities w @ [MakeEntityID (EntityGenerations w ! i + 1) (GetIndex e)]"
    by (subst eq, simp)+
  have c1: "\<forall>c. Contains (GetStore w' c) e = Some False"
    using nh world_inv_D(2)[OF inv'] by (simp add: w'' GetStore_def Contains_wf)
  have hc: "HasComponent w e = Test sig"
    using HasComponent_alive[OF assms(2)] by (auto simp: sig_def)
  have m: "map (\<lambda>c. event_calls w c e Removed (stored (ComponentStores w c) e)) (filter (Test sig) [0..<256])
         = map (\<lambda>c. map (\<lambda>cb. Call Removed c cb e (the (GetComponent w e c))) (registered w c Removed))
               (filter (Test sig) [0..<256])"
  proof (rule map_cong[OF refl])
    fix c assume "c \<in> set (filter (Test sig) [0..<256])"
    then have "Test sig c" by (simp only: set_filter) simp
    then have "holds (ComponentStores w c) e" using alive_holds_iff[OF assms] by (simp add: sig_def)
    then have "GetComponent w e c = Some (stored (ComponentStores w c) e)"
      using Get_stored[OF world_inv_D(2)[OF assms(1)]] by (simp add: GetComponent_def GetStore_def)
    then show "event_calls w c e Removed (stored (ComponentStores w c) e)
        = map (\<lambda>cb. Call Removed c cb e (the (GetComponent w e c))) (registered w c Removed)"
      by (simp add: event_calls_def)
  qed
  have calls': "Calls w' = Calls w @ concat (map
        (\<lambda>c. map (\<lambda>cb. Call Removed c cb e (the (GetComponent w e c))) (registered w c Removed))
        (filter (HasComponent w e) [0..<256]))"
    unfolding calls m hc ..
  show ?thesis
    using d c1 il calls' by (simp add: f i_def[symmetric] del: upt_rec_numeral)
qed

theorem C3_destroy_entity_witness:
  "world_inv world_watched \<and> IsAlive world_watched 0 = Some True \<and>
   (\<exists>w'. DestroyEntity 0 world_watched = Some w' \<and>
      (\<forall>c. \<not> Test (EntitySignatures w' ! 0) c) \<and>
      EntityGenerations w' ! 0 = 1 \<and>
      FreeEntities w' = [0x100000000] \<and>
      (\<forall>c. Contains (GetStore w' c) 0 = Some False) \<and>
      Calls w' = [Call Added 0 1 0 5, Call Removed 0 2 0 5])"
proof -
  have inv: "world_inv world_watched"
    unfolding world_watched_def by (rule world_inv_OnEvent[OF reachable_inv[OF reachable_world_component]])
  have al: "IsAlive world_watched 0 = Some True"
    using world_component_props(1) by (simp add: IsAlive_iff world_watched_def)
  have hc: "\<And>c. HasComponent world_watched 0 c \<longleftrightarrow> c = 0"
  proof -
    fix c
    have wf: "wf_SparseSet (ComponentStores world_observed 0)"
      by (simp add: world_observed_def world1_store wf_empty)
    have idx: "unat (GetIndex 0) < length (EntitySignatures world_observed)"
      by (simp add: ents_eval world_observed_def world1_def)
    obtain w where a: "AddComponent 0 0 5 world_observed = Some w"
      and sg: "EntitySignatures w = (EntitySignatures world_observed)
              [unat (GetIndex 0) := Set 0 (EntitySignatures world_observed ! unat (GetIndex 0))]"
      using AddComponent_effect[OF wf idx, of 5] by blast
    have w: "world_component = w" using a by (simp add: world_component_add)
    show "HasComponent world_watched 0 c \<longleftrightarrow> c = 0"
      by (simp add: HasComponent_def world_watched_def w sg ents_eval world_observed_def world1_def Test_Set)
  qed
  have flt: "filter (HasComponent world_watched 0) [0..<256] = [0]"
    using filter_eq_0 hc by (simp del: upt_rec_numeral cong: filter_cong)
  have reg: "registered world_watched 0 Removed = [2]"
    by (simp add: world_watched_def registered_OnEvent world_component_registered world_observed_def)
       (simp add: registered_def world1_def empty_World_def)
  have val: "GetComponent world_watched 0 0 = Some 5"
    using world_component_value by (simp add: GetComponent_def GetStore_def world_watched_def)
  have calls0: "Calls world_watched = [Call Added 0 1 0 5]"
    using world_component_props(5) by (simp add: world_watched_def)
  have fr0: "FreeEntities world_watched = []" "EntityGenerations world_watched ! 0 = 0"
    using al reachable_inv[OF reachable_world_component]
    by (simp_all add: world_watched_def IsAlive_iff ents_eval world_component_free)
  obtain w' where d: "DestroyEntity 0 world_watched = Some w'"
    and p1: "\<forall>c. \<not> Test (EntitySignatures w' ! 0) c"
    and p2: "EntityGenerations w' ! 0 = 1"
    and p3: "FreeEntities w' = [MakeEntityID (EntityGenerations w' ! 0) 0]"
    and p4: "\<forall>c. Contains (GetStore w' c) 0 = Some False"
    and p5: "Calls w' = [Call Added 0 1 0 5, Call Removed 0 2 0 5]"
    using C3_destroy_entity[OF inv al]
    by (auto simp add: flt reg val calls0 fr0 ents_eval simp del: upt_rec_numeral)
  have "FreeEntities w' = [0x100000000]" using p3 by (simp add: p2 ents_eval)
  then show ?thesis using inv al d p1 p2 p4 p5 by blast
qed

theorem C3_untracked_store_counterexample:
  "IsAlive world_large 0 = Some True \<and>
   Contains (GetStore world_large 256) 0 = Some True \<and>
   (\<exists>w'. DestroyEntity 0 world_large = Some w' \<and> Contains (GetStore w' 256) 0 = Some True)"
  using world_large_props(2,3) world_large_destroy by simp
end
